theory Spec2Isabelle
  imports Complex_Main "HOL-Library.Multiset"
begin

section \<open>Zone classifier\<close>

text \<open>
  The zone of a run is the tuple \<open>((h, k), (w, l), theta)\<close> read from the ellipses file:
  centre, full axis lengths and rotation in degrees. \<open>self.ellipse\<close> is \<open>None\<close> when
  the date of the file has no entry, so the classifier takes an optional zone.
  Python floats are idealised as real numbers throughout.
\<close>

type_synonym point = "real \<times> real"

type_synonym ellipse = "point \<times> point \<times> real"

datatype error = TypeError | ZeroDivisionError | IndexError | FileNotFoundError

datatype quad = UpperLeft | UpperRight | LowerLeft | LowerRight | OutsideQ

datatype direction = Inside | Enter | Exit | Outside

definition radians :: "real \<Rightarrow> real" where
  "radians d = d * pi / 180"

text \<open>The rotated coordinates of lines 302 to 313, for a zone that is present.\<close>

definition x_rot :: "point \<Rightarrow> ellipse \<Rightarrow> real" where
  "x_rot pos e =
     (case (pos, e) of ((x, y), ((h, k), _, deg)) \<Rightarrow>
        let theta = radians deg; xp = x - h; yp = y - k
        in xp * cos (- theta) - yp * sin (- theta))"

definition y_rot :: "point \<Rightarrow> ellipse \<Rightarrow> real" where
  "y_rot pos e =
     (case (pos, e) of ((x, y), ((h, k), _, deg)) \<Rightarrow>
        let theta = radians deg; xp = x - h; yp = y - k
        in xp * sin (- theta) + yp * cos (- theta))"

text \<open>
  \<open>ellipse_quad\<close>. Subscripting \<open>None\<close> raises TypeError. The coordinates of
  \<open>pos\<close> are Python floats when the function is given a tuple, and numpy scalars when
  \<open>track_insects_one_file\<close> passes a row of the detections array; the flag
  \<open>numpy_scalars\<close> says which. Dividing a Python float by a zero \<open>a**2\<close> or
  \<open>b**2\<close> raises ZeroDivisionError; dividing a numpy scalar by it gives \<open>inf\<close> or
  \<open>nan\<close>, the comparison with 1 is then false and the point is outside. When no
  branch of the inner chain is taken the Python function falls off its end and returns
  \<open>None\<close>, which is the result \<open>Inr None\<close> here.
\<close>

definition ellipse_quad :: "bool \<Rightarrow> point \<Rightarrow> ellipse option \<Rightarrow> error + quad option" where
  "ellipse_quad numpy_scalars pos ellipse =
     (case ellipse of
        None \<Rightarrow> Inl TypeError
      | Some e \<Rightarrow>
          (case e of (c, (w, l), deg) \<Rightarrow>
             let a = w / 2; b = l / 2; xr = x_rot pos e; yr = y_rot pos e
             in if (a\<^sup>2 = 0 \<or> b\<^sup>2 = 0) \<and> \<not> numpy_scalars then Inl ZeroDivisionError
                else if a\<^sup>2 \<noteq> 0 \<and> b\<^sup>2 \<noteq> 0 \<and> xr\<^sup>2 / a\<^sup>2 + yr\<^sup>2 / b\<^sup>2 \<le> 1 then
                  (if yr \<le> 0 \<and> xr \<le> 0 then Inr (Some UpperRight)
                   else if yr \<le> 0 \<and> xr \<ge> 0 then Inr (Some LowerRight)
                   else if yr \<ge> 0 \<and> xr \<le> 0 then Inr (Some UpperLeft)
                   else if yr \<ge> 0 \<and> xr \<ge> 0 then Inr (Some LowerLeft)
                   else Inr None)
                else Inr (Some OutsideQ)))"

definition is_inside :: "quad option \<Rightarrow> bool" where
  "is_inside q = (q = Some UpperLeft \<or> q = Some UpperRight)"

definition check_direction ::
  "bool \<Rightarrow> point \<Rightarrow> point \<Rightarrow> ellipse option \<Rightarrow> error + direction" where
  "check_direction numpy_scalars start end ellipse =
     (case ellipse_quad numpy_scalars start ellipse of
        Inl err \<Rightarrow> Inl err
      | Inr start_quad \<Rightarrow>
          (case ellipse_quad numpy_scalars end ellipse of
             Inl err \<Rightarrow> Inl err
           | Inr end_quad \<Rightarrow>
               let start_inside = is_inside start_quad; end_inside = is_inside end_quad
               in if start_inside \<and> end_inside then Inr Inside
                  else if start_inside \<and> \<not> end_inside then Inr Exit
                  else if \<not> start_inside \<and> end_inside then Inr Enter
                  else Inr Outside))"

section \<open>Tracks and the external libraries\<close>

text \<open>
  A track is the dictionary built on line 266; its key \<open>id\<close> is the field
  \<open>ident\<close>. Its filter object belongs to the
  filterpy library; the filter's state is a type parameter, and the library calls the
  tracker makes are the fields of \<open>lib\<close>: the filter built from the two noise
  settings and started at a detection (lines 209 to 221 and 259 to 265), \<open>predict\<close>,
  \<open>update\<close>, the position part \<open>x[:2]\<close> of the state, and scipy's
  \<open>linear_sum_assignment\<close>, which receives the shape of the cost matrix and its rows
  and returns the zipped row and column indices.
\<close>

record 'k track =
  kf :: 'k
  ident :: nat
  last_seen :: int
  positions :: "point list"
  distance :: real
  frame_ids :: "int list"

record 'k lib =
  filter_new :: "real \<Rightarrow> real \<Rightarrow> point \<Rightarrow> 'k"
  filter_predict :: "'k \<Rightarrow> 'k"
  filter_update :: "'k \<Rightarrow> point \<Rightarrow> 'k"
  filter_x :: "'k \<Rightarrow> point"
  linear_sum_assignment :: "nat \<Rightarrow> nat \<Rightarrow> real list list \<Rightarrow> (nat \<times> nat) list"

text \<open>\<open>np.linalg.norm\<close> of the difference of two positions.\<close>

definition norm_diff :: "point \<Rightarrow> point \<Rightarrow> real" where
  "norm_diff p q = (case (p, q) of ((px, py), (qx, qy)) \<Rightarrow> sqrt ((px - qx)\<^sup>2 + (py - qy)\<^sup>2))"

section \<open>The frame loop\<close>

text \<open>
  The track dictionaries are shared between the list \<open>tracks\<close> and the list
  \<open>all_tracks\<close>, and are mutated in place, so the loop state keeps them in a store:
  the dictionaries in the order they were created, addressed by position. The two lists
  hold addresses.
\<close>

type_synonym row = "int \<times> real \<times> real"

record 'k loop_state =
  store :: "'k track list"
  tracks :: "nat list"
  all_tracks :: "nat list"
  track_id :: nat

definition init_state :: "'k loop_state" where
  "init_state = \<lparr>store = [], tracks = [], all_tracks = [], track_id = 0\<rparr>"

text \<open>Line 227: the detections of a frame, in the order of the rows.\<close>

definition observations_of :: "row list \<Rightarrow> int \<Rightarrow> point list" where
  "observations_of df frame = map snd (filter (\<lambda>r. fst r = frame) df)"

text \<open>Lines 230 to 232.\<close>

definition predict_track :: "'k lib \<Rightarrow> 'k track \<Rightarrow> 'k track" where
  "predict_track L t = t\<lparr>kf := filter_predict L (kf t), last_seen := last_seen t + 1\<rparr>"

definition predict_all :: "'k lib \<Rightarrow> nat list \<Rightarrow> 'k track list \<Rightarrow> 'k track list" where
  "predict_all L tr s = fold (\<lambda>a s. s[a := predict_track L (s ! a)]) tr s"

text \<open>Lines 235 to 238.\<close>

definition cost_matrix_of :: "'k lib \<Rightarrow> 'k track list \<Rightarrow> nat list \<Rightarrow> point list \<Rightarrow> real list list" where
  "cost_matrix_of L s tr obs = map (\<lambda>a. map (\<lambda>ob. norm_diff (filter_x L (kf (s ! a))) ob) obs) tr"

text \<open>Lines 247 to 252: the body of the loop over the proposed pairs.\<close>

definition update_track :: "'k lib \<Rightarrow> point \<Rightarrow> real \<Rightarrow> int \<Rightarrow> 'k track \<Rightarrow> 'k track" where
  "update_track L ob c frame t =
     t\<lparr>kf := filter_update L (kf t) ob, last_seen := 0, positions := positions t @ [ob],
       distance := distance t + c, frame_ids := frame_ids t @ [frame]\<rparr>"

definition apply_match ::
  "'k lib \<Rightarrow> real \<Rightarrow> real list list \<Rightarrow> nat list \<Rightarrow> point list \<Rightarrow> int \<Rightarrow> nat \<times> nat \<Rightarrow>
     'k track list \<Rightarrow> 'k track list" where
  "apply_match L distance_threshold cost_matrix tr obs frame p s =
     (case p of (i, j) \<Rightarrow>
        if cost_matrix ! i ! j < distance_threshold
        then s[tr ! i := update_track L (obs ! j) (cost_matrix ! i ! j) frame (s ! (tr ! i))]
        else s)"

text \<open>Lines 253 and 254: the indices the accepted pairs add to the two sets.\<close>

definition accepted :: "real \<Rightarrow> real list list \<Rightarrow> (nat \<times> nat) list \<Rightarrow> (nat \<times> nat) list" where
  "accepted distance_threshold cost_matrix pairs =
     filter (\<lambda>p. cost_matrix ! fst p ! snd p < distance_threshold) pairs"

text \<open>Lines 257 to 267.\<close>

definition new_track :: "'k lib \<Rightarrow> real \<Rightarrow> real \<Rightarrow> point \<Rightarrow> int \<Rightarrow> nat \<Rightarrow> 'k track" where
  "new_track L process_noise measurement_noise ob frame n =
     \<lparr>kf = filter_new L process_noise measurement_noise ob, ident = n, last_seen = 0,
      positions = [ob], distance = 0, frame_ids = [frame]\<rparr>"

definition birth ::
  "'k lib \<Rightarrow> real \<Rightarrow> real \<Rightarrow> point list \<Rightarrow> int \<Rightarrow> nat list \<Rightarrow> nat \<Rightarrow>
     'k track list \<times> nat list \<times> nat \<Rightarrow> 'k track list \<times> nat list \<times> nat" where
  "birth L process_noise measurement_noise obs frame assigned_observations j acc =
     (case acc of (s, tr, n) \<Rightarrow>
        if j \<notin> set assigned_observations
        then (s @ [new_track L process_noise measurement_noise (obs ! j) frame n],
              tr @ [length s], n + 1)
        else (s, tr, n))"

text \<open>Lines 272 to 275: a track joins the registry unless its id is already there.\<close>

definition register :: "'k track list \<Rightarrow> nat \<Rightarrow> nat list \<Rightarrow> nat list" where
  "register s a al =
     (if ident (s ! a) \<notin> set (map (\<lambda>b. ident (s ! b)) al) then al @ [a] else al)"

text \<open>
  One iteration of the loop of line 226. Indexing the cost matrix with a pair outside
  its shape raises IndexError, which ends the run, so the check is made for all the
  proposed pairs at once.
\<close>

definition frame_step ::
  "'k lib \<Rightarrow> real \<Rightarrow> real \<Rightarrow> real \<Rightarrow> int \<Rightarrow> row list \<Rightarrow> int \<Rightarrow> 'k loop_state \<Rightarrow>
     error + 'k loop_state" where
  "frame_step L process_noise measurement_noise distance_threshold max_frames_before_death
       df frame st =
     (let observations = observations_of df frame;
          s1 = predict_all L (tracks st) (store st);
          cost_matrix = cost_matrix_of L s1 (tracks st) observations;
          pairs = linear_sum_assignment L (length (tracks st)) (length observations) cost_matrix
      in if \<not> list_all (\<lambda>p. fst p < length (tracks st) \<and> snd p < length observations) pairs
         then Inl IndexError
         else
           let s2 = fold (apply_match L distance_threshold cost_matrix (tracks st)
                            observations frame) pairs s1;
               assigned_observations = map snd (accepted distance_threshold cost_matrix pairs);
               born = fold (birth L process_noise measurement_noise observations frame
                              assigned_observations)
                        [0..<length observations] (s2, tracks st, track_id st);
               s3 = fst born;
               tracks4 = filter (\<lambda>a. last_seen (s3 ! a) \<le> max_frames_before_death)
                           (fst (snd born))
           in Inr \<lparr>store = s3, tracks = tracks4,
                   all_tracks = fold (register s3) tracks4 (all_tracks st),
                   track_id = snd (snd born)\<rparr>)"

fun track_loop ::
  "'k lib \<Rightarrow> real \<Rightarrow> real \<Rightarrow> real \<Rightarrow> int \<Rightarrow> row list \<Rightarrow> int list \<Rightarrow> 'k loop_state \<Rightarrow>
     error + 'k loop_state" where
  "track_loop L pn mn thr maxf df [] st = Inr st"
| "track_loop L pn mn thr maxf df (frame # frames) st =
     (case frame_step L pn mn thr maxf df frame st of
        Inl err \<Rightarrow> Inl err
      | Inr st' \<Rightarrow> track_loop L pn mn thr maxf df frames st')"

section \<open>One file\<close>

record counts =
  inside :: nat
  enter :: nat
  exit :: nat
  outside :: nat

definition zero_counts :: counts where
  "zero_counts = \<lparr>inside = 0, enter = 0, exit = 0, outside = 0\<rparr>"

definition bump :: "direction \<Rightarrow> counts \<Rightarrow> counts" where
  "bump d c =
     (case d of
        Inside \<Rightarrow> c\<lparr>inside := inside c + 1\<rparr>
      | Enter \<Rightarrow> c\<lparr>enter := enter c + 1\<rparr>
      | Exit \<Rightarrow> c\<lparr>exit := exit c + 1\<rparr>
      | Outside \<Rightarrow> c\<lparr>outside := outside c + 1\<rparr>)"

text \<open>
  A loaded CSV file: whether the three columns the tracker reads are present, and its
  rows (frame id, centre x, centre y).
\<close>

record csv =
  has_columns :: bool
  rows :: "row list"

text \<open>
  The attributes of the engine object. \<open>self.ellipse\<close> and \<open>self.file_path\<close> are
  first assigned by \<open>load_csv\<close>, which always runs before they are read.
\<close>

record 'k self =
  self_all_tracks :: "'k track list"
  current_track_id :: "nat option"
  df :: "csv option"
  start_frame :: int
  end_frame :: int
  process_noise :: real
  measurement_noise :: real
  distance_threshold :: real
  max_frames_before_death :: int
  date :: "string option"
  counter :: counts
  ellipses :: "string option \<rightharpoonup> ellipse"
  ellipse :: "ellipse option"
  csv_files :: "string list"
  file_path :: string

text \<open>
  Python's \<open>sorted(xs, key=f, reverse=True)\<close> is a stable sort into descending order
  of the key: elements with equal keys keep their order.
\<close>

definition sorted_reverse :: "('a \<Rightarrow> int) \<Rightarrow> 'a list \<Rightarrow> 'a list" where
  "sorted_reverse f xs = sort_key (\<lambda>x. - f x) xs"

text \<open>
  Lines 204 to 280: the loop over the frame range, the filter and the sort. The data
  frame is subscripted inside the loop, so a missing one raises TypeError only when the
  frame range is not empty.
\<close>

definition registry :: "'k loop_state \<Rightarrow> 'k track list" where
  "registry st = map (\<lambda>a. store st ! a) (all_tracks st)"

definition keep_track :: "'k track \<Rightarrow> bool" where
  "keep_track t = (length (positions t) > 5 \<and> distance t > 100)"

definition surviving_tracks :: "'k lib \<Rightarrow> 'k self \<Rightarrow> error + 'k track list" where
  "surviving_tracks L self =
     (case df self of
        None \<Rightarrow> (if start_frame self \<le> end_frame self then Inl TypeError else Inr [])
      | Some d \<Rightarrow>
          (case track_loop L (process_noise self) (measurement_noise self)
                  (distance_threshold self) (max_frames_before_death self) (rows d)
                  [start_frame self..end_frame self] init_state of
             Inl err \<Rightarrow> Inl err
           | Inr st \<Rightarrow>
               Inr (sorted_reverse (\<lambda>t. int (length (positions t)))
                      (filter keep_track (registry st)))))"

text \<open>
  Lines 281 to 289: the direction of each surviving track, counted. The positions are
  rows of the detections array, so their coordinates are numpy scalars.
\<close>

fun count_directions :: "ellipse option \<Rightarrow> 'k track list \<Rightarrow> counts \<Rightarrow> error + counts" where
  "count_directions e [] c = Inr c"
| "count_directions e (t # ts) c =
     (case positions t of
        [] \<Rightarrow> Inl IndexError
      | p # ps \<Rightarrow>
          (case check_direction True p (last (p # ps)) e of
             Inl err \<Rightarrow> Inl err
           | Inr d \<Rightarrow> count_directions e ts (bump d c)))"

text \<open>
  \<open>track_insects_one_file\<close>. An exception leaves the engine as the assignments
  before it made it, so the error is returned with that engine: \<open>self.all_tracks\<close> is
  emptied on line 204, before the loop, and set to the surviving tracks on line 280,
  before the directions are computed; \<open>self.counter\<close> is assigned last, on line 291.
\<close>

definition track_insects_one_file :: "'k lib \<Rightarrow> 'k self \<Rightarrow> error \<times> 'k self + 'k self" where
  "track_insects_one_file L self =
     (case surviving_tracks L self of
        Inl err \<Rightarrow> Inl (err, self\<lparr>self_all_tracks := []\<rparr>)
      | Inr all \<Rightarrow>
          (case count_directions (ellipse self) all zero_counts of
             Inl err \<Rightarrow> Inl (err, self\<lparr>self_all_tracks := all\<rparr>)
           | Inr c \<Rightarrow> Inr (self\<lparr>self_all_tracks := all, counter := c\<rparr>)))"

section \<open>The run over the folder\<close>

text \<open>
  The part of the file system the engine touches: the CSV files by path, and the lines of
  \<open>track-stats.csv\<close> in the output folder. The report \<open>track-stats.txt\<close> and the
  printed messages are written and never read back; they are left out.
\<close>

record world =
  files :: "string \<rightharpoonup> csv"
  stats_csv :: "string list"

definition digit :: "char \<Rightarrow> bool" where
  "digit c = (c \<in> set ''0123456789'')"

text \<open>
  The first match of \<open>re.findall\<close> for a run of \<open>n\<close> digits (utils.py), on
  file names in ASCII.
\<close>

fun first_digits :: "nat \<Rightarrow> string \<Rightarrow> string option" where
  "first_digits n [] = None"
| "first_digits n (c # cs) =
     (if n \<le> length (c # cs) \<and> list_all digit (take n (c # cs)) then Some (take n (c # cs))
      else first_digits n cs)"

definition get_date_from_filename :: "string \<Rightarrow> string option" where
  "get_date_from_filename filename = first_digits 8 filename"

definition basename :: "string \<Rightarrow> string" where
  "basename path = rev (takeWhile (\<lambda>c. c \<noteq> CHR ''/'') (rev path))"

text \<open>The test \<open>sub in line\<close> on strings.\<close>

fun contains :: "string \<Rightarrow> string \<Rightarrow> bool" where
  "contains sub [] = (sub = [])"
| "contains sub (c # cs) = (take (length sub) (c # cs) = sub \<or> contains sub cs)"

fun show_nat :: "nat \<Rightarrow> string" where
  "show_nat n =
     (if n < 10 then [''0123456789'' ! n]
      else show_nat (n div 10) @ [''0123456789'' ! (n mod 10)])"

definition stats_line :: "string \<Rightarrow> nat list \<Rightarrow> string" where
  "stats_line name ns = name @ concat (map (\<lambda>n. '','' @ show_nat n) ns) @ [CHR 0x0A]"

definition reset_variables :: "'k self \<Rightarrow> 'k self" where
  "reset_variables self =
     self\<lparr>self_all_tracks := [], current_track_id := None, df := None, start_frame := 1,
          end_frame := 1, process_noise := 1 / 10000, measurement_noise := 1 / 10,
          date := None, counter := zero_counts\<rparr>"

text \<open>\<open>load_csv\<close>: the result of the validation and the engine after it.\<close>

definition load_csv :: "'k self \<Rightarrow> world \<Rightarrow> string \<Rightarrow> error + bool \<times> 'k self" where
  "load_csv self w path =
     (case files w path of
        None \<Rightarrow> Inl FileNotFoundError
      | Some d \<Rightarrow>
          let self1 = self\<lparr>df := Some d\<rparr> in
          if \<not> has_columns d then Inr (False, reset_variables self1)
          else if length (rows d) < 5 then Inr (False, reset_variables self1)
          else
            let min_frame = fold min (map fst (rows d)) (fst (hd (rows d)));
                max_frame = fold max (map fst (rows d)) (fst (hd (rows d)))
            in if \<bar>max_frame - min_frame\<bar> < 5 then Inr (False, reset_variables self1)
               else
                 let d8 = get_date_from_filename path
                 in Inr (True, self1\<lparr>start_frame := min_frame, end_frame := max_frame,
                                     date := d8, ellipse := ellipses self1 d8,
                                     file_path := path\<rparr>))"

definition check_already_processed :: "world \<Rightarrow> string \<Rightarrow> bool" where
  "check_already_processed w path = list_ex (contains (basename path)) (stats_csv w)"

text \<open>\<open>write_stats_to_csv_file\<close>, with and without \<open>no_data\<close>.\<close>

definition write_no_data :: "world \<Rightarrow> string \<Rightarrow> world" where
  "write_no_data w path =
     w\<lparr>stats_csv := stats_csv w @ [stats_line (basename path) [0, 0, 0, 0, 0, 0]]\<rparr>"

definition write_stats :: "'k self \<Rightarrow> world \<Rightarrow> error + world" where
  "write_stats self w =
     (case df self of
        None \<Rightarrow> Inl TypeError
      | Some d \<Rightarrow>
          Inr (w\<lparr>stats_csv := stats_csv w @
                 [stats_line (basename (file_path self))
                    [length (rows d), length (self_all_tracks self), enter (counter self),
                     exit (counter self), inside (counter self), outside (counter self)]]\<rparr>))"

text \<open>
  The loop of \<open>track_insects\<close> over the CSV files. A file whose date has no entry in
  \<open>self.ellipses\<close> is skipped by the \<open>continue\<close> of line 183, before anything else is
  done with it. An exception is not caught anywhere, so it ends the whole run; the
  error is returned with the engine and the files as they are at that moment.
\<close>

fun track_insects_files ::
  "'k lib \<Rightarrow> string list \<Rightarrow> 'k self \<times> world \<Rightarrow>
     error \<times> 'k self \<times> world + 'k self \<times> world" where
  "track_insects_files L [] sw = Inr sw"
| "track_insects_files L (file # rest) sw =
     (case sw of (self, w) \<Rightarrow>
        if ellipses self (get_date_from_filename file) = None
        then track_insects_files L rest (self, w)
        else
          let self1 = reset_variables self in
          if check_already_processed w file then track_insects_files L rest (self1, w)
          else
            (case load_csv self1 w file of
               Inl err \<Rightarrow> Inl (err, self1, w)
             | Inr (csv_loaded, self2) \<Rightarrow>
                 if csv_loaded then
                   (case track_insects_one_file L self2 of
                      Inl (err, self3) \<Rightarrow> Inl (err, self3, w)
                    | Inr self3 \<Rightarrow>
                        (case write_stats self3 w of
                           Inl err \<Rightarrow> Inl (err, self3, w)
                         | Inr w' \<Rightarrow> track_insects_files L rest (self3, w')))
                 else if files w file \<noteq> None
                   then track_insects_files L rest (self2, write_no_data w file)
                   else track_insects_files L rest (self2, w)))"

definition track_insects ::
  "'k lib \<Rightarrow> 'k self \<Rightarrow> world \<Rightarrow> error \<times> 'k self \<times> world + 'k self \<times> world" where
  "track_insects L self w =
     (if csv_files self = [] then Inr (self, w)
      else track_insects_files L (csv_files self) (self, w))"

section \<open>Quantities of one frame, and the contract of the assignment solver\<close>

text \<open>
  The intermediate values of one iteration, named so that the properties below can speak
  about them: the store after the predict step, the cost matrix, the pairs the solver
  proposes, the pairs that pass the threshold test, and the detections left over.
\<close>

definition predicted :: "'k lib \<Rightarrow> 'k loop_state \<Rightarrow> 'k track list" where
  "predicted L st = predict_all L (tracks st) (store st)"

definition costs :: "'k lib \<Rightarrow> row list \<Rightarrow> int \<Rightarrow> 'k loop_state \<Rightarrow> real list list" where
  "costs L d frame st = cost_matrix_of L (predicted L st) (tracks st) (observations_of d frame)"

definition proposed :: "'k lib \<Rightarrow> row list \<Rightarrow> int \<Rightarrow> 'k loop_state \<Rightarrow> (nat \<times> nat) list" where
  "proposed L d frame st =
     linear_sum_assignment L (length (tracks st)) (length (observations_of d frame))
       (costs L d frame st)"

definition matched ::
  "'k lib \<Rightarrow> real \<Rightarrow> row list \<Rightarrow> int \<Rightarrow> 'k loop_state \<Rightarrow> (nat \<times> nat) list" where
  "matched L thr d frame st = accepted thr (costs L d frame st) (proposed L d frame st)"

definition unassigned :: "'k lib \<Rightarrow> real \<Rightarrow> row list \<Rightarrow> int \<Rightarrow> 'k loop_state \<Rightarrow> nat list" where
  "unassigned L thr d frame st =
     filter (\<lambda>j. j \<notin> set (map snd (matched L thr d frame st)))
       [0..<length (observations_of d frame)]"

text \<open>
  What scipy documents of \<open>linear_sum_assignment\<close> on an \<open>n\<close> by \<open>m\<close> matrix: the
  pairs lie inside the matrix, no row is used twice and no column is used twice.
\<close>

definition assignment_ok :: "nat \<Rightarrow> nat \<Rightarrow> (nat \<times> nat) list \<Rightarrow> bool" where
  "assignment_ok n m ps =
     (distinct (map fst ps) \<and> distinct (map snd ps) \<and> list_all (\<lambda>p. fst p < n \<and> snd p < m) ps)"

definition lsa_ok :: "'k lib \<Rightarrow> bool" where
  "lsa_ok L =
     (\<forall>n m C. length C = n \<and> list_all (\<lambda>r. length r = m) C \<longrightarrow>
        assignment_ok n m (linear_sum_assignment L n m C))"

text \<open>The tracks born in a frame, for the left-over detections \<open>js\<close> in order.\<close>

fun newborn :: "'k lib \<Rightarrow> real \<Rightarrow> real \<Rightarrow> point list \<Rightarrow> int \<Rightarrow> nat \<Rightarrow> nat list \<Rightarrow> 'k track list" where
  "newborn L pn mn obs frame n [] = []"
| "newborn L pn mn obs frame n (j # js) =
     new_track L pn mn (obs ! j) frame n # newborn L pn mn obs frame (Suc n) js"

text \<open>The store after the accepted pairs have updated their tracks (lines 246 to 254).\<close>

definition matched_store :: "'k lib \<Rightarrow> real \<Rightarrow> row list \<Rightarrow> int \<Rightarrow> 'k loop_state \<Rightarrow> 'k track list" where
  "matched_store L thr d frame st =
     fold (apply_match L thr (costs L d frame st) (tracks st) (observations_of d frame) frame)
       (proposed L d frame st) (predicted L st)"

text \<open>The addresses of the tracks that an accepted pair updates in a frame.\<close>

definition matched_tracks :: "'k lib \<Rightarrow> real \<Rightarrow> row list \<Rightarrow> int \<Rightarrow> 'k loop_state \<Rightarrow> nat set" where
  "matched_tracks L thr d frame st = (\<lambda>p. tracks st ! fst p) ` set (matched L thr d frame st)"

text \<open>The shape of the loop state that every iteration keeps.\<close>

definition track_ok :: "'k track \<Rightarrow> bool" where
  "track_ok t =
     (0 \<le> last_seen t \<and> positions t \<noteq> [] \<and> length (positions t) = length (frame_ids t))"

definition wf :: "'k loop_state \<Rightarrow> bool" where
  "wf st =
     (sorted_wrt (<) (tracks st) \<and> sorted_wrt (<) (all_tracks st) \<and>
      set (tracks st) \<subseteq> set (all_tracks st) \<and>
      (\<forall>a \<in> set (all_tracks st). a < length (store st)) \<and>
      map ident (store st) = [0..<length (store st)] \<and>
      track_id st = length (store st) \<and>
      (\<forall>t \<in> set (store st). track_ok t))"

section \<open>A small instance\<close>

text \<open>
  An instance of the library for concrete runs: the filter state is the last position,
  \<open>predict\<close> leaves it alone and \<open>update\<close> moves it to the detection; the solver
  pairs row \<open>i\<close> with column \<open>i\<close>.
\<close>

definition diag_assignment :: "nat \<Rightarrow> nat \<Rightarrow> real list list \<Rightarrow> (nat \<times> nat) list" where
  "diag_assignment n m C = map (\<lambda>i. (i, i)) [0..<min n m]"

definition static_lib :: "point lib" where
  "static_lib =
     \<lparr>filter_new = (\<lambda>pn mn ob. ob), filter_predict = (\<lambda>k. k), filter_update = (\<lambda>k ob. ob),
      filter_x = (\<lambda>k. k), linear_sum_assignment = diag_assignment\<rparr>"

text \<open>
  A two-frame run of the instance: one detection at the origin in frame 1 and one at
  \<open>(3, 0)\<close> in frame 2. \<open>st1\<close> and \<open>st2\<close> are the loop states after the frames.
  In \<open>rows3\<close> the second detection is at \<open>(100, 0)\<close>, beyond the threshold.
\<close>

definition rows2 :: "row list" where
  "rows2 = [(1, 0, 0), (2, 3, 0)]"

definition rows3 :: "row list" where
  "rows3 = [(1, 0, 0), (2, 100, 0)]"

definition st1 :: "point loop_state" where
  "st1 = \<lparr>store = [\<lparr>kf = (0, 0), ident = 0, last_seen = 0, positions = [(0, 0)], distance = 0,
                     frame_ids = [1]\<rparr>],
          tracks = [0], all_tracks = [0], track_id = 1\<rparr>"

definition st2 :: "point loop_state" where
  "st2 = \<lparr>store = [\<lparr>kf = (3, 0), ident = 0, last_seen = 0, positions = [(0, 0), (3, 0)],
                     distance = 3, frame_ids = [1, 2]\<rparr>],
          tracks = [0], all_tracks = [0], track_id = 1\<rparr>"

text \<open>
  A file of six frames in which one insect moves 30 units along the x axis per frame,
  and an engine as \<open>__init__\<close> leaves it when the ellipses file has a zone for
  20231231 only and the folder holds one file, dated 20240102. \<open>engine6\<close> is the
  engine after \<open>load_csv\<close> has read the six frames, and \<open>track6\<close> the track that the
  six detections form with the instance above.
\<close>

definition rows6 :: "row list" where
  "rows6 = [(1, 0, 0), (2, 30, 0), (3, 60, 0), (4, 90, 0), (5, 120, 0), (6, 150, 0)]"

definition csv6 :: csv where
  "csv6 = \<lparr>has_columns = True, rows = rows6\<rparr>"

definition file6 :: string where
  "file6 = ''bees/20240101_120000.csv''"

definition file8 :: string where
  "file8 = ''bees/20240102_120000.csv''"

definition zone6 :: ellipse where
  "zone6 = ((0, 0), (100, 40), 0)"

definition engine0 :: "point self" where
  "engine0 =
     \<lparr>self_all_tracks = [], current_track_id = None, df = None, start_frame = 1,
      end_frame = 1, process_noise = 1 / 10000, measurement_noise = 1 / 10,
      distance_threshold = 50, max_frames_before_death = 20, date = None,
      counter = zero_counts, ellipses = [Some ''20231231'' \<mapsto> zone6], ellipse = None,
      csv_files = [file8], file_path = []\<rparr>"

definition engine6 :: "point self" where
  "engine6 =
     engine0\<lparr>df := Some csv6, start_frame := 1, end_frame := 6, date := Some ''20240101'',
             ellipse := None, file_path := file6\<rparr>"

definition track6 :: "point track" where
  "track6 =
     \<lparr>kf = (150, 0), ident = 0, last_seen = 0,
      positions = [(0, 0), (30, 0), (60, 0), (90, 0), (120, 0), (150, 0)], distance = 150,
      frame_ids = [1, 2, 3, 4, 5, 6]\<rparr>"

text \<open>
  The file dated 20240102: eight frames in which one insect advances 10 units in x per
  frame and alternates between the heights 0 and 20. With the constant-velocity filter
  of the engine the eight detections are matched into one track whose distance is about
  154, so the file has a track that passes the filter. \<open>world8\<close> is the folder with
  this file alone and an empty statistics file.
\<close>

definition rows8 :: "row list" where
  "rows8 = [(1, 0, 0), (2, 10, 20), (3, 20, 0), (4, 30, 20), (5, 40, 0), (6, 50, 20),
            (7, 60, 0), (8, 70, 20)]"

definition csv8 :: csv where
  "csv8 = \<lparr>has_columns = True, rows = rows8\<rparr>"

definition world8 :: world where
  "world8 = \<lparr>files = [file8 \<mapsto> csv8], stats_csv = []\<rparr>"

text \<open>
  The engine in the middle of the loop of \<open>track_insects\<close> over a folder of two
  files, after the first, dated 20231231, has been processed: it holds the one track of
  that file, matched in its frames 101 to 108 (the same movement as above; the distance
  is rounded), and the statistics file has the line of that file. \<open>engine8\<close> is the
  engine after \<open>load_csv\<close> has then read the second file.
\<close>

definition rows_old :: "row list" where
  "rows_old = [(101, 0, 0), (102, 10, 20), (103, 20, 0), (104, 30, 20), (105, 40, 0),
               (106, 50, 20), (107, 60, 0), (108, 70, 20)]"

definition csv_old :: csv where
  "csv_old = \<lparr>has_columns = True, rows = rows_old\<rparr>"

definition file_old :: string where
  "file_old = ''bees/20231231_090000.csv''"

definition old_track :: "point track" where
  "old_track =
     \<lparr>kf = (70, 20), ident = 0, last_seen = 0,
      positions = [(0, 0), (10, 20), (20, 0), (30, 20), (40, 0), (50, 20), (60, 0), (70, 20)],
      distance = 15412 / 100,
      frame_ids = [101, 102, 103, 104, 105, 106, 107, 108]\<rparr>"

definition engine_mid :: "point self" where
  "engine_mid =
     engine0\<lparr>self_all_tracks := [old_track], df := Some csv_old, start_frame := 101,
             end_frame := 108, date := Some ''20231231'',
             counter := \<lparr>inside = 0, enter = 0, exit = 1, outside = 0\<rparr>,
             ellipse := Some zone6, csv_files := [file_old, file8], file_path := file_old\<rparr>"

definition world_mid :: world where
  "world_mid =
     \<lparr>files = [file_old \<mapsto> csv_old, file8 \<mapsto> csv8],
      stats_csv = [stats_line ''20231231_090000.csv'' [8, 1, 0, 1, 0, 0]]\<rparr>"

definition engine8 :: "point self" where
  "engine8 =
     engine0\<lparr>df := Some csv8, start_frame := 1, end_frame := 8, date := Some ''20240102'',
             ellipse := None, csv_files := [file_old, file8], file_path := file8\<rparr>"

section \<open>Properties of the zone classifier\<close>

lemma rot_simps:
  "x_rot (x, y) ((h, k), ax, deg) = (x - h) * cos (radians deg) + (y - k) * sin (radians deg)"
  "y_rot (x, y) ((h, k), ax, deg) = (y - k) * cos (radians deg) - (x - h) * sin (radians deg)"
  by (simp_all add: x_rot_def y_rot_def Let_def)

text \<open>
  C2, as the code has it. For a zone whose two axes are not zero, the classifier moves
  the point to zone-centred coordinates, turns it by minus the rotation (in radians),
  and with semi-axes \<open>w / 2\<close> and \<open>l / 2\<close> returns \<open>outside\<close> exactly when the ellipse
  inequality fails. Inside, the four sign tests are tried in the order they are written
  and the first that holds decides: \<open>y_rot \<le> 0\<close> gives upper-right when
  \<open>x_rot \<le> 0\<close> and lower-right only when \<open>x_rot > 0\<close>; \<open>y_rot > 0\<close> gives upper-left
  when \<open>x_rot \<le> 0\<close> and lower-left only when \<open>x_rot > 0\<close>.
\<close>

theorem ellipse_quad_first_match:
  assumes "w \<noteq> 0" and "l \<noteq> 0"
  shows "ellipse_quad np (x, y) (Some ((h, k), (w, l), deg)) =
     (let xr = (x - h) * cos (deg * pi / 180) + (y - k) * sin (deg * pi / 180);
          yr = (y - k) * cos (deg * pi / 180) - (x - h) * sin (deg * pi / 180)
      in Inr (Some (if xr\<^sup>2 / (w / 2)\<^sup>2 + yr\<^sup>2 / (l / 2)\<^sup>2 \<le> 1
                    then (if yr \<le> 0 then (if xr \<le> 0 then UpperRight else LowerRight)
                          else (if xr \<le> 0 then UpperLeft else LowerLeft))
                    else OutsideQ)))"
proof -
  define xr where "xr = (x - h) * cos (deg * pi / 180) + (y - k) * sin (deg * pi / 180)"
  define yr where "yr = (y - k) * cos (deg * pi / 180) - (x - h) * sin (deg * pi / 180)"
  have x: "x_rot (x, y) ((h, k), (w, l), deg) = xr"
    and y: "y_rot (x, y) ((h, k), (w, l), deg) = yr"
    by (simp_all add: rot_simps radians_def xr_def yr_def)
  have "ellipse_quad np (x, y) (Some ((h, k), (w, l), deg)) =
      Inr (Some (if xr\<^sup>2 / (w / 2)\<^sup>2 + yr\<^sup>2 / (l / 2)\<^sup>2 \<le> 1
                    then (if yr \<le> 0 then (if xr \<le> 0 then UpperRight else LowerRight)
                          else (if xr \<le> 0 then UpperLeft else LowerLeft))
                    else OutsideQ))"
    using assms by (auto simp add: ellipse_quad_def x y Let_def)
  then show ?thesis
    by (simp add: xr_def yr_def Let_def)
qed

theorem ellipse_quad_first_match_witness:
  "(4::real) \<noteq> 0 \<and> (2::real) \<noteq> 0 \<and>
   ellipse_quad False (1, 0) (Some ((0, 0), (4, 2), 0)) = Inr (Some LowerRight) \<and>
   ellipse_quad True (0, 1 / 2) (Some ((0, 0), (4, 2), 0)) = Inr (Some UpperLeft)"
  using ellipse_quad_first_match [of 4 2 False 1 0 0 0 0]
    ellipse_quad_first_match [of 4 2 True 0 "1 / 2" 0 0 0]
  by (simp add: Let_def power2_eq_square)

text \<open>
  At the centre of a zone both rotated coordinates are zero, so the point passes the
  test \<open>y_rot \<le> 0\<close> and \<open>x_rot \<ge> 0\<close> that C2 gives to lower-right, and lies inside the
  ellipse; the classifier answers upper-right, the first branch of the chain. And for a
  zone with a zero axis a point given as a tuple of floats gets no label at all: the
  division raises.
\<close>

theorem ellipse_quad_centre_counterexample:
  "y_rot (0, 0) ((0, 0), (2, 2), 0) \<le> 0 \<and> x_rot (0, 0) ((0, 0), (2, 2), 0) \<ge> 0 \<and>
   (x_rot (0, 0) ((0, 0), (2, 2), 0))\<^sup>2 / (2 / 2)\<^sup>2 +
     (y_rot (0, 0) ((0, 0), (2, 2), 0))\<^sup>2 / (2 / 2)\<^sup>2 \<le> 1 \<and>
   ellipse_quad False (0, 0) (Some ((0, 0), (2, 2), 0)) = Inr (Some UpperRight) \<and>
   ellipse_quad False (0, 0) (Some ((0, 0), (2, 2), 0)) \<noteq> Inr (Some LowerRight) \<and>
   ellipse_quad True (0, 0) (Some ((0, 0), (2, 2), 0)) = Inr (Some UpperRight) \<and>
   ellipse_quad False (1, 1) (Some ((0, 0), (0, 2), 0)) = Inl ZeroDivisionError"
  by (simp add: ellipse_quad_def rot_simps radians_def Let_def)

text \<open>
  C8. Whenever the classifier returns a quadrant for the start point and for the end
  point, the direction is \<open>inside\<close> when both quadrants are upper-left or upper-right,
  \<open>exit\<close> when only the start quadrant is, \<open>enter\<close> when only the end quadrant is, and
  \<open>outside\<close> when neither is.
\<close>

theorem check_direction_cases:
  assumes "ellipse_quad np start e = Inr qs" and "ellipse_quad np end e = Inr qe"
  shows "check_direction np start end e =
     Inr (if is_inside qs \<and> is_inside qe then Inside
          else if is_inside qs then Exit
          else if is_inside qe then Enter
          else Outside)"
  using assms by (simp add: check_direction_def Let_def)

theorem check_direction_cases_witness:
  "ellipse_quad True (- 1, - 1 / 2) (Some ((0, 0), (4, 2), 0)) = Inr (Some UpperRight) \<and>
   ellipse_quad True (5, 5) (Some ((0, 0), (4, 2), 0)) = Inr (Some OutsideQ) \<and>
   check_direction True (- 1, - 1 / 2) (5, 5) (Some ((0, 0), (4, 2), 0)) = Inr Exit"
proof -
  have s: "ellipse_quad True (- 1, - 1 / 2) (Some ((0, 0), (4, 2), 0)) = Inr (Some UpperRight)"
    by (simp add: ellipse_quad_def rot_simps radians_def Let_def power2_eq_square)
  have e: "ellipse_quad True (5, 5) (Some ((0, 0), (4, 2), 0)) = Inr (Some OutsideQ)"
    by (simp add: ellipse_quad_def rot_simps radians_def Let_def power2_eq_square)
  show ?thesis
    using check_direction_cases [OF s e] s e by (simp add: is_inside_def)
qed

section \<open>The steps of one frame\<close>

lemma predict_all_length [simp]: "length (predict_all L tr s) = length s"
  unfolding predict_all_def by (induction tr arbitrary: s) auto

lemma predict_all_nth:
  "distinct tr \<Longrightarrow> a < length s \<Longrightarrow>
   predict_all L tr s ! a = (if a \<in> set tr then predict_track L (s ! a) else s ! a)"
  unfolding predict_all_def
proof (induction tr arbitrary: s)
  case Nil
  then show ?case by simp
next
  case (Cons x xs)
  then show ?case by (cases "a = x") auto
qed

lemma fold_apply_match_length [simp]:
  "length (fold (apply_match L thr C tr obs f) ps s) = length s"
  by (induction ps arbitrary: s) (auto simp: apply_match_def split: prod.splits)

lemma fold_apply_match_nth:
  "a < length s \<Longrightarrow>
   fold (apply_match L thr C tr obs f) ps s ! a =
   fold (\<lambda>p. update_track L (obs ! snd p) (C ! fst p ! snd p) f)
     (filter (\<lambda>p. tr ! fst p = a) (accepted thr C ps)) (s ! a)"
proof (induction ps arbitrary: s)
  case Nil
  then show ?case by (simp add: accepted_def)
next
  case (Cons p ps)
  obtain i j where p: "p = (i, j)" by (cases p)
  show ?case
    using Cons.prems Cons.IH [of "apply_match L thr C tr obs f p s"]
    by (auto simp: p apply_match_def accepted_def)
qed

lemma upt_add_Suc: "[a..<a + Suc k] = a # [Suc a..<Suc a + k]"
  by (simp add: upt_conv_Cons)

lemma fold_birth:
  "fold (birth L pn mn obs f asg) js (s, tr, n) =
   (s @ newborn L pn mn obs f n (filter (\<lambda>j. j \<notin> set asg) js),
    tr @ [length s..<length s + length (filter (\<lambda>j. j \<notin> set asg) js)],
    n + length (filter (\<lambda>j. j \<notin> set asg) js))"
proof (induction js arbitrary: s tr n)
  case Nil
  then show ?case by simp
next
  case (Cons j js)
  show ?case
  proof (cases "j \<in> set asg")
    case True
    then show ?thesis using Cons.IH [of s tr n] by (simp add: birth_def)
  next
    case False
    then show ?thesis
      using Cons.IH [of "s @ [new_track L pn mn (obs ! j) f n]" "tr @ [length s]" "n + 1"]
      using upt_add_Suc [of "length s" "length (filter (\<lambda>j. j \<notin> set asg) js)"]
      by (simp add: birth_def)
  qed
qed

lemma newborn_length [simp]: "length (newborn L pn mn obs f n js) = length js"
  by (induction js arbitrary: n) auto

lemma newborn_nth:
  "k < length js \<Longrightarrow> newborn L pn mn obs f n js ! k = new_track L pn mn (obs ! (js ! k)) f (n + k)"
proof (induction js arbitrary: n k)
  case Nil
  then show ?case by simp
next
  case (Cons j js)
  then show ?case by (cases k) auto
qed

lemma map_ident_newborn: "map ident (newborn L pn mn obs f n js) = [n..<n + length js]"
proof (induction js arbitrary: n)
  case Nil
  then show ?case by simp
next
  case (Cons j js)
  show ?case
    using Cons.IH [of "Suc n"] upt_add_Suc [of n "length js"]
    by (simp add: new_track_def)
qed

lemma fold_register_old:
  "set xs \<subseteq> set al \<Longrightarrow> fold (register s) xs al = al"
  by (induction xs) (auto simp: register_def)

lemma fold_register_new:
  assumes "\<forall>a < length s. ident (s ! a) = a" "\<forall>a \<in> set al. a < length s"
    "\<forall>a \<in> set xs. a < length s" "distinct xs" "set xs \<inter> set al = {}"
  shows "fold (register s) xs al = al @ xs"
  using assms
proof (induction xs arbitrary: al)
  case Nil
  then show ?case by simp
next
  case (Cons x xs)
  have m: "(\<lambda>b. ident (s ! b)) ` set al = set al"
    using Cons.prems(1,2) by force
  have r: "register s x al = al @ [x]"
    using Cons.prems m by (simp add: register_def)
  show ?case using Cons.IH [of "al @ [x]"] Cons.prems r by auto
qed


lemma frame_step_fail:
  "\<not> list_all (\<lambda>p. fst p < length (tracks st) \<and> snd p < length (observations_of d f))
       (proposed L d f st) \<Longrightarrow>
   frame_step L pn mn thr maxf d f st = Inl IndexError"
  by (simp add: frame_step_def Let_def proposed_def costs_def predicted_def)

lemma frame_step_ok:
  assumes "list_all (\<lambda>p. fst p < length (tracks st) \<and> snd p < length (observations_of d f))
       (proposed L d f st)"
    and "track_id st = length (store st)"
    and "S = matched_store L thr d f st @
                  newborn L pn mn (observations_of d f) f (length (store st)) (unassigned L thr d f st)"
    and "T = filter (\<lambda>a. last_seen (S ! a) \<le> maxf)
                  (tracks st @ [length (store st)..<length (store st) + length (unassigned L thr d f st)])"
  shows "frame_step L pn mn thr maxf d f st =
    Inr \<lparr>store = S, tracks = T, all_tracks = fold (register S) T (all_tracks st),
         track_id = length (store st) + length (unassigned L thr d f st)\<rparr>"
proof -
  have len: "length (matched_store L thr d f st) = length (store st)"
    by (simp add: matched_store_def predicted_def)
  show ?thesis
    using assms(1) len unfolding assms(3,4)
    by (simp add: frame_step_def Let_def fold_birth proposed_def costs_def predicted_def
        matched_store_def unassigned_def matched_def assms(2))
qed

lemma ident_predict_track [simp]: "ident (predict_track L t) = ident t"
  by (simp add: predict_track_def)

lemma ident_update_track [simp]: "ident (update_track L ob c f t) = ident t"
  by (simp add: update_track_def)

lemma fold_update_track_inv:
  assumes "P t" and "\<And>ob c u. P u \<Longrightarrow> P (update_track L ob c f u)"
  shows "P (fold (\<lambda>p. update_track L (obs ! snd p) (C ! fst p ! snd p) f) ps t)"
  using assms(1)
proof (induction ps arbitrary: t)
  case Nil
  then show ?case by simp
next
  case (Cons p ps)
  then show ?case using assms(2) by simp
qed

lemma matched_store_length [simp]: "length (matched_store L thr d f st) = length (store st)"
  by (simp add: matched_store_def predicted_def)

lemma matched_store_nth:
  assumes "distinct (tracks st)" and "a < length (store st)"
  shows "matched_store L thr d f st ! a =
     fold (\<lambda>p. update_track L (observations_of d f ! snd p) (costs L d f st ! fst p ! snd p) f)
       (filter (\<lambda>p. tracks st ! fst p = a) (matched L thr d f st))
       (if a \<in> set (tracks st) then predict_track L (store st ! a) else store st ! a)"
  using assms
  by (simp add: matched_store_def fold_apply_match_nth predicted_def predict_all_nth matched_def)

lemma matched_store_ident:
  assumes "distinct (tracks st)" and "a < length (store st)"
  shows "ident (matched_store L thr d f st ! a) = ident (store st ! a)"
proof -
  have "ident (fold (\<lambda>p. update_track L (observations_of d f ! snd p) (costs L d f st ! fst p ! snd p) f)
       (filter (\<lambda>p. tracks st ! fst p = a) (matched L thr d f st))
       (if a \<in> set (tracks st) then predict_track L (store st ! a) else store st ! a))
     = ident (store st ! a)"
    by (rule fold_update_track_inv) auto
  then show ?thesis using assms by (simp add: matched_store_nth)
qed

lemma map_ident_matched_store:
  assumes "distinct (tracks st)"
  shows "map ident (matched_store L thr d f st) = map ident (store st)"
  by (rule nth_equalityI) (simp_all add: matched_store_ident assms)

lemma track_ok_matched_store:
  assumes "distinct (tracks st)" and "a < length (store st)" and "track_ok (store st ! a)"
  shows "track_ok (matched_store L thr d f st ! a)"
proof -
  have "track_ok (fold (\<lambda>p. update_track L (observations_of d f ! snd p) (costs L d f st ! fst p ! snd p) f)
       (filter (\<lambda>p. tracks st ! fst p = a) (matched L thr d f st))
       (if a \<in> set (tracks st) then predict_track L (store st ! a) else store st ! a))"
    by (rule fold_update_track_inv)
      (use assms(3) in \<open>auto simp: track_ok_def predict_track_def update_track_def\<close>)
  then show ?thesis using assms by (simp add: matched_store_nth)
qed

lemma track_ok_newborn: "t \<in> set (newborn L pn mn obs f n js) \<Longrightarrow> track_ok t"
  by (induction js arbitrary: n) (auto simp: track_ok_def new_track_def)

lemma last_seen_newborn: "t \<in> set (newborn L pn mn obs f n js) \<Longrightarrow> last_seen t = 0"
  by (induction js arbitrary: n) (auto simp: new_track_def)

lemma wf_distinct: "wf st \<Longrightarrow> distinct (tracks st)"
  by (simp add: wf_def strict_sorted_iff)

lemma wf_tracks_lt: "wf st \<Longrightarrow> a \<in> set (tracks st) \<Longrightarrow> a < length (store st)"
  by (auto simp: wf_def)

lemma wf_ident: "wf st \<Longrightarrow> a < length (store st) \<Longrightarrow> ident (store st ! a) = a"
proof -
  assume w: "wf st" and a: "a < length (store st)"
  have "map ident (store st) ! a = [0..<length (store st)] ! a"
    using w by (simp add: wf_def)
  then show ?thesis using a by simp
qed

lemma step_facts:
  assumes w: "wf st" and s: "frame_step L pn mn thr maxf d f st = Inr st'"
  shows "list_all (\<lambda>p. fst p < length (tracks st) \<and> snd p < length (observations_of d f))
           (proposed L d f st)"
    and "store st' = matched_store L thr d f st @
           newborn L pn mn (observations_of d f) f (length (store st)) (unassigned L thr d f st)"
    and "tracks st' = filter (\<lambda>a. last_seen (store st' ! a) \<le> maxf)
           (tracks st @ [length (store st)..<length (store st) + length (unassigned L thr d f st)])"
    and "all_tracks st' = all_tracks st @ filter (\<lambda>a. last_seen (store st' ! a) \<le> maxf)
           [length (store st)..<length (store st) + length (unassigned L thr d f st)]"
    and "track_id st' = length (store st) + length (unassigned L thr d f st)"
    and "map ident (store st') = [0..<length (store st')]"
proof -
  let ?n = "length (store st)"
  let ?U = "unassigned L thr d f st"
  let ?S = "matched_store L thr d f st @ newborn L pn mn (observations_of d f) f ?n ?U"
  let ?keep = "\<lambda>a. last_seen (?S ! a) \<le> maxf"
  show r: "list_all (\<lambda>p. fst p < length (tracks st) \<and> snd p < length (observations_of d f))
           (proposed L d f st)"
    using s frame_step_fail [where st = st and d = d and f = f and L = L and pn = pn
        and mn = mn and thr = thr and maxf = maxf] by auto
  have tid: "track_id st = ?n" using w by (simp add: wf_def)
  have eq: "st' = \<lparr>store = ?S, tracks = filter ?keep (tracks st @ [?n..<?n + length ?U]),
         all_tracks = fold (register ?S) (filter ?keep (tracks st @ [?n..<?n + length ?U]))
              (all_tracks st),
         track_id = ?n + length ?U\<rparr>"
  proof -
    have "frame_step L pn mn thr maxf d f st = Inr \<lparr>store = ?S, tracks = filter ?keep (tracks st @ [?n..<?n + length ?U]),
         all_tracks = fold (register ?S) (filter ?keep (tracks st @ [?n..<?n + length ?U]))
              (all_tracks st),
         track_id = ?n + length ?U\<rparr>"
      by (rule frame_step_ok [OF r tid refl refl])
    with s show ?thesis by (simp only: sum.inject)
  qed
  show st: "store st' = ?S" by (subst eq) simp
  show "tracks st' = filter (\<lambda>a. last_seen (store st' ! a) \<le> maxf) (tracks st @ [?n..<?n + length ?U])"
    unfolding st by (subst eq) simp
  show "track_id st' = ?n + length ?U" by (subst eq) simp
  have idS: "map ident ?S = [0..<length ?S]"
  proof -
    have "[0..<?n + length ?U] = [0..<?n] @ [?n..<?n + length ?U]"
      by (rule upt_add_eq_append) simp
    moreover have "map ident (matched_store L thr d f st) = [0..<?n]"
      using w by (simp add: map_ident_matched_store wf_distinct wf_def)
    ultimately show ?thesis
      by (simp add: map_ident_newborn)
  qed
  show "map ident (store st') = [0..<length (store st')]"
    unfolding st by (rule idS)
  have ids: "\<forall>a < length ?S. ident (?S ! a) = a"
  proof (intro allI impI)
    fix a assume "a < length ?S"
    then have "map ident ?S ! a = a" by (simp only: idS) simp
    then show "ident (?S ! a) = a" using \<open>a < length ?S\<close> by (simp only: nth_map)
  qed
  have al: "\<forall>a \<in> set (all_tracks st). a < length ?S"
    using w by (auto simp: wf_def)
  have old: "fold (register ?S) (filter ?keep (tracks st)) (all_tracks st) = all_tracks st"
    by (rule fold_register_old) (use w in \<open>auto simp: wf_def\<close>)
  have new: "fold (register ?S) (filter ?keep [?n..<?n + length ?U]) (all_tracks st)
      = all_tracks st @ filter ?keep [?n..<?n + length ?U]"
    by (rule fold_register_new [OF ids al]) (use w in \<open>auto simp: wf_def\<close>)
  have "all_tracks st' = fold (register ?S) (filter ?keep (tracks st @ [?n..<?n + length ?U])) (all_tracks st)"
    by (subst eq) simp
  also have "\<dots> = all_tracks st @ filter ?keep [?n..<?n + length ?U]"
    by (simp only: filter_append fold_append o_apply old new)
  finally show "all_tracks st' = all_tracks st @ filter (\<lambda>a. last_seen (store st' ! a) \<le> maxf)
           [?n..<?n + length ?U]"
    unfolding st .
qed

section \<open>The loop keeps the shape of its state\<close>

lemma wf_init: "wf init_state"
  by (simp add: wf_def init_state_def)

lemma wf_step:
  assumes w: "wf st" and s: "frame_step L pn mn thr maxf d f st = Inr st'"
  shows "wf st'"
proof -
  let ?n = "length (store st)"
  let ?U = "unassigned L thr d f st"
  let ?keep = "\<lambda>a. last_seen (store st' ! a) \<le> maxf"
  note sf = step_facts [OF w s]
  have len: "length (store st') = ?n + length ?U"
    by (simp add: sf(2))
  have lt: "\<forall>a \<in> set (tracks st). a < ?n" "\<forall>a \<in> set (all_tracks st). a < ?n"
    using w by (auto simp: wf_def)
  have s1: "sorted_wrt (<) (tracks st @ [?n..<?n + length ?U])"
    using w lt by (auto simp: sorted_wrt_append wf_def)
  have s2: "sorted_wrt (<) (all_tracks st @ filter ?keep [?n..<?n + length ?U])"
    using w lt by (auto simp: sorted_wrt_append wf_def sorted_wrt_filter)
  have t1: "sorted_wrt (<) (tracks st')"
    unfolding sf(3) by (rule sorted_wrt_filter [OF s1])
  have t2: "sorted_wrt (<) (all_tracks st')"
    unfolding sf(4) by (rule s2)
  have t3: "set (tracks st') \<subseteq> set (all_tracks st')"
    using w unfolding sf(3) sf(4) by (auto simp: wf_def)
  have t4: "\<forall>a \<in> set (all_tracks st'). a < length (store st')"
    using lt unfolding sf(4) len by auto
  have t7: "\<forall>t \<in> set (store st'). track_ok t"
  proof
    fix t assume "t \<in> set (store st')"
    then consider "t \<in> set (matched_store L thr d f st)"
      | "t \<in> set (newborn L pn mn (observations_of d f) f ?n ?U)"
      unfolding sf(2) by auto
    then show "track_ok t"
    proof cases
      case 1
      then obtain a where a: "a < ?n" "t = matched_store L thr d f st ! a"
        by (auto simp: in_set_conv_nth)
      have "track_ok (store st ! a)" using w a(1) by (simp add: wf_def)
      then show ?thesis
        unfolding a(2) by (rule track_ok_matched_store [OF wf_distinct [OF w] a(1)])
    next
      case 2
      then show ?thesis by (rule track_ok_newborn)
    qed
  qed
  show ?thesis
    unfolding wf_def using t1 t2 t3 t4 t7 sf(5) sf(6) len by simp
qed

lemma wf_loop:
  "wf st0 \<Longrightarrow> track_loop L pn mn thr maxf d fs st0 = Inr st \<Longrightarrow> wf st"
proof (induction fs arbitrary: st0)
  case Nil
  then show ?case by simp
next
  case (Cons f fs)
  then show ?case
    by (auto split: sum.splits dest: wf_step)
qed

lemma costs_shape:
  "length (costs L d f st) = length (tracks st) \<and>
   list_all (\<lambda>r. length r = length (observations_of d f)) (costs L d f st)"
  by (simp add: costs_def cost_matrix_of_def list_all_iff)

lemma lsa_ok_proposed:
  "lsa_ok L \<Longrightarrow> assignment_ok (length (tracks st)) (length (observations_of d f)) (proposed L d f st)"
  unfolding lsa_ok_def proposed_def using costs_shape by blast

lemma step_total:
  assumes "lsa_ok L" and "wf st"
  shows "\<exists>st'. frame_step L pn mn thr maxf d f st = Inr st'"
proof -
  have r: "list_all (\<lambda>p. fst p < length (tracks st) \<and> snd p < length (observations_of d f))
       (proposed L d f st)"
    using lsa_ok_proposed [OF assms(1), of st d f] by (simp add: assignment_ok_def)
  have t: "track_id st = length (store st)" using assms(2) by (simp add: wf_def)
  show ?thesis
    using frame_step_ok [OF r t refl refl] by blast
qed

lemma loop_total:
  "lsa_ok L \<Longrightarrow> wf st0 \<Longrightarrow> \<exists>st. track_loop L pn mn thr maxf d fs st0 = Inr st"
proof (induction fs arbitrary: st0)
  case Nil
  then show ?case by simp
next
  case (Cons f fs)
  obtain st' where s: "frame_step L pn mn thr maxf d f st0 = Inr st'"
    using step_total [OF Cons.prems] by blast
  have "wf st'" by (rule wf_step [OF Cons.prems(2) s])
  then show ?case using Cons.IH [OF Cons.prems(1)] s by simp
qed

section \<open>Concrete runs of the instance\<close>

lemma diag_assignment_ok: "assignment_ok n m (diag_assignment n m C)"
  by (auto simp: assignment_ok_def diag_assignment_def distinct_map list_all_iff o_def
      intro: inj_onI)

lemma lsa_ok_static: "lsa_ok static_lib"
  by (simp add: lsa_ok_def static_lib_def diag_assignment_ok)

lemma norm_diff_axis: "norm_diff (x, y) (x', y) = \<bar>x - x'\<bar>"
  by (simp add: norm_diff_def)

lemmas step_eval = frame_step_def Let_def observations_of_def predict_all_def predict_track_def
  cost_matrix_of_def static_lib_def diag_assignment_def apply_match_def update_track_def
  accepted_def birth_def new_track_def register_def init_state_def norm_diff_axis

lemmas frame_eval = proposed_def costs_def predicted_def matched_def unassigned_def
  matched_tracks_def

lemma run_rows2_frame1:
  "track_loop static_lib (1 / 10000) (1 / 10) 50 20 rows2 [1] init_state = Inr st1"
  by (simp add: step_eval st1_def rows2_def)

lemma run_rows2_frame2:
  "frame_step static_lib (1 / 10000) (1 / 10) 50 20 rows2 2 st1 = Inr st2"
  by (simp add: step_eval st1_def st2_def rows2_def)

lemma run_rows3_frame1:
  "track_loop static_lib (1 / 10000) (1 / 10) 50 20 rows3 [1] init_state = Inr st1"
  by (simp add: step_eval st1_def rows3_def)

lemma upto_1_6: "[1..6] = [1, 2, 3, 4, 5, 6::int]"
  by (simp add: upto.simps)

lemma run_rows6:
  "track_loop static_lib (1 / 10000) (1 / 10) 50 20 rows6 [1, 2, 3, 4, 5, 6] init_state =
     Inr \<lparr>store = [track6], tracks = [0], all_tracks = [0], track_id = 1\<rparr>"
  by (simp add: step_eval rows6_def track6_def)

lemma survivors_engine6: "surviving_tracks static_lib engine6 = Inr [track6]"
  by (simp add: surviving_tracks_def engine6_def engine0_def csv6_def upto_1_6 run_rows6
      registry_def keep_track_def sorted_reverse_def del: track_loop.simps)
    (simp add: track6_def)

lemma date_file8: "get_date_from_filename file8 = Some ''20240102''"
  by (simp add: get_date_from_filename_def file8_def digit_def)

section \<open>Track identifiers\<close>

lemma track_loop_append:
  "track_loop L pn mn thr maxf d (fs @ gs) st0 =
     (case track_loop L pn mn thr maxf d fs st0 of
        Inl err \<Rightarrow> Inl err
      | Inr st \<Rightarrow> track_loop L pn mn thr maxf d gs st)"
  by (induction fs arbitrary: st0) (auto split: sum.splits)

lemma store_grows_step:
  "wf st \<Longrightarrow> frame_step L pn mn thr maxf d f st = Inr st' \<Longrightarrow>
   length (store st) \<le> length (store st')"
  by (simp add: step_facts(2))

lemma store_grows:
  "wf st0 \<Longrightarrow> track_loop L pn mn thr maxf d fs st0 = Inr st \<Longrightarrow>
   length (store st0) \<le> length (store st)"
proof (induction fs arbitrary: st0)
  case Nil
  then show ?case by simp
next
  case (Cons f fs)
  from Cons.prems(2) obtain st' where s: "frame_step L pn mn thr maxf d f st0 = Inr st'"
    and r: "track_loop L pn mn thr maxf d fs st' = Inr st"
    by (auto split: sum.splits)
  have "wf st'" by (rule wf_step [OF Cons.prems(1) s])
  from Cons.IH [OF this r] store_grows_step [OF Cons.prems(1) s] show ?case by simp
qed

text \<open>
  C6, for a solver that keeps its contract. The store lists the tracks in the order they were created, and later frames only
  append to it. After any sequence of frames the ids in the store are \<open>0, 1, 2, \<dots>\<close>
  in that order: pairwise distinct and strictly increasing in creation order, every new
  track above all the ids assigned before it.
\<close>

theorem track_ids_increasing:
  assumes "lsa_ok L"
  shows "\<exists>st st2.
     track_loop L pn mn thr maxf d fs init_state = Inr st \<and>
     track_loop L pn mn thr maxf d (fs @ gs) init_state = Inr st2 \<and>
     length (store st) \<le> length (store st2) \<and>
     take (length (store st)) (map ident (store st2)) = map ident (store st) \<and>
     map ident (store st2) = [0..<length (store st2)] \<and>
     sorted_wrt (<) (map ident (store st2)) \<and> distinct (map ident (store st2))"
proof -
  obtain st where st: "track_loop L pn mn thr maxf d fs init_state = Inr st"
    using loop_total [OF assms wf_init] by blast
  have w: "wf st" by (rule wf_loop [OF wf_init st])
  obtain st2 where st2: "track_loop L pn mn thr maxf d gs st = Inr st2"
    using loop_total [OF assms w] by blast
  have w2: "wf st2" by (rule wf_loop [OF w st2])
  have all: "track_loop L pn mn thr maxf d (fs @ gs) init_state = Inr st2"
    by (simp add: track_loop_append st st2)
  have le: "length (store st) \<le> length (store st2)" by (rule store_grows [OF w st2])
  have i1: "map ident (store st) = [0..<length (store st)]" using w by (simp add: wf_def)
  have i2: "map ident (store st2) = [0..<length (store st2)]" using w2 by (simp add: wf_def)
  have tk: "take (length (store st)) (map ident (store st2)) = map ident (store st)"
    unfolding i1 i2 using le by (simp add: take_upt)
  have so: "sorted_wrt (<) (map ident (store st2))" unfolding i2 by simp
  have di: "distinct (map ident (store st2))" unfolding i2 by simp
  show ?thesis using st all le tk i2 so di by blast
qed

theorem track_ids_increasing_witness:
  "\<exists>st st2.
     track_loop static_lib (1 / 10000) (1 / 10) 50 20 rows2 [1] init_state = Inr st \<and>
     track_loop static_lib (1 / 10000) (1 / 10) 50 20 rows2 ([1] @ [2]) init_state = Inr st2 \<and>
     length (store st) \<le> length (store st2) \<and>
     take (length (store st)) (map ident (store st2)) = map ident (store st) \<and>
     map ident (store st2) = [0..<length (store st2)] \<and>
     sorted_wrt (<) (map ident (store st2)) \<and> distinct (map ident (store st2))"
  by (rule track_ids_increasing [OF lsa_ok_static])

section \<open>Track age\<close>

lemma step_old_nth:
  assumes "wf st" and "frame_step L pn mn thr maxf d f st = Inr st'" and "a < length (store st)"
  shows "store st' ! a = matched_store L thr d f st ! a"
  using assms(3) by (simp add: step_facts(2) [OF assms(1,2)] nth_append)

lemma step_new_nth:
  assumes "wf st" and "frame_step L pn mn thr maxf d f st = Inr st'"
    and "k < length (unassigned L thr d f st)"
  shows "store st' ! (length (store st) + k) =
     new_track L pn mn (observations_of d f ! (unassigned L thr d f st ! k)) f (length (store st) + k)"
  using assms(3) by (simp add: step_facts(2) [OF assms(1,2)] nth_append newborn_nth)

lemma step_length:
  assumes "wf st" and "frame_step L pn mn thr maxf d f st = Inr st'"
  shows "length (store st') = length (store st) + length (unassigned L thr d f st)"
  by (simp add: step_facts(2) [OF assms])

lemma last_seen_fold_update:
  "ps \<noteq> [] \<Longrightarrow>
   last_seen (fold (\<lambda>p. update_track L (obs ! snd p) (C ! fst p ! snd p) f) ps t) = 0"
proof (induction ps arbitrary: t)
  case Nil
  then show ?case by simp
next
  case (Cons p ps)
  then show ?case by (cases "ps = []") (simp_all add: update_track_def)
qed

lemma matched_filter_empty:
  "(filter (\<lambda>p. tracks st ! fst p = a) (matched L thr d f st) = []) =
   (a \<notin> matched_tracks L thr d f st)"
  by (auto simp: matched_tracks_def filter_empty_conv)

lemma step_unmatched:
  assumes w: "wf st" and s: "frame_step L pn mn thr maxf d f st = Inr st'"
    and a: "a < length (store st)" and n: "a \<notin> matched_tracks L thr d f st"
  shows "store st' ! a = (if a \<in> set (tracks st) then predict_track L (store st ! a) else store st ! a)"
proof -
  have e: "filter (\<lambda>p. tracks st ! fst p = a) (matched L thr d f st) = []"
    using n by (simp add: matched_filter_empty)
  show ?thesis
    unfolding step_old_nth [OF w s a] matched_store_nth [OF wf_distinct [OF w] a] e by simp
qed

lemma step_last_seen:
  assumes w: "wf st" and s: "frame_step L pn mn thr maxf d f st = Inr st'"
    and a: "a \<in> set (tracks st)"
  shows "last_seen (store st' ! a) =
     (if a \<in> matched_tracks L thr d f st then 0 else last_seen (store st ! a) + 1)"
proof (cases "a \<in> matched_tracks L thr d f st")
  case True
  have al: "a < length (store st)" by (rule wf_tracks_lt [OF w a])
  have ne: "filter (\<lambda>p. tracks st ! fst p = a) (matched L thr d f st) \<noteq> []"
    using True by (simp add: matched_filter_empty)
  show ?thesis
    unfolding step_old_nth [OF w s al] matched_store_nth [OF wf_distinct [OF w] al]
    using True by (simp add: last_seen_fold_update [OF ne])
next
  case False
  have al: "a < length (store st)" by (rule wf_tracks_lt [OF w a])
  show ?thesis
    using step_unmatched [OF w s al False] a False by (simp add: predict_track_def)
qed

text \<open>
  C4, for a solver that keeps its contract. In every frame of a run, a track that is in the active list when the frame starts
  ends the frame with \<open>last_seen = 0\<close> exactly when an accepted pair matched it in
  that frame, and otherwise with the value it had at the end of the previous frame plus
  one; every track born in the frame ends it with \<open>last_seen = 0\<close>.
\<close>

theorem last_seen_reset_or_increment:
  assumes "lsa_ok L" and "track_loop L pn mn thr maxf d fs init_state = Inr st"
  shows "\<exists>st'. frame_step L pn mn thr maxf d f st = Inr st' \<and>
     (\<forall>a \<in> set (tracks st).
        (last_seen (store st' ! a) = 0) = (a \<in> matched_tracks L thr d f st) \<and>
        (a \<notin> matched_tracks L thr d f st \<longrightarrow>
           last_seen (store st' ! a) = last_seen (store st ! a) + 1)) \<and>
     length (store st') = length (store st) + length (unassigned L thr d f st) \<and>
     (\<forall>a. length (store st) \<le> a \<and> a < length (store st') \<longrightarrow> last_seen (store st' ! a) = 0)"
proof -
  have w: "wf st" by (rule wf_loop [OF wf_init assms(2)])
  obtain st' where s: "frame_step L pn mn thr maxf d f st = Inr st'"
    using step_total [OF assms(1) w] by blast
  have old: "\<forall>a \<in> set (tracks st).
        (last_seen (store st' ! a) = 0) = (a \<in> matched_tracks L thr d f st) \<and>
        (a \<notin> matched_tracks L thr d f st \<longrightarrow>
           last_seen (store st' ! a) = last_seen (store st ! a) + 1)"
  proof
    fix a assume a: "a \<in> set (tracks st)"
    have "store st ! a \<in> set (store st)"
      using wf_tracks_lt [OF w a] by simp
    then have "0 \<le> last_seen (store st ! a)" using w by (simp add: wf_def track_ok_def)
    then show "(last_seen (store st' ! a) = 0) = (a \<in> matched_tracks L thr d f st) \<and>
        (a \<notin> matched_tracks L thr d f st \<longrightarrow>
           last_seen (store st' ! a) = last_seen (store st ! a) + 1)"
      using step_last_seen [OF w s a] by auto
  qed
  have len: "length (store st') = length (store st) + length (unassigned L thr d f st)"
    by (rule step_length [OF w s])
  have new: "\<forall>a. length (store st) \<le> a \<and> a < length (store st') \<longrightarrow> last_seen (store st' ! a) = 0"
  proof (intro allI impI)
    fix a assume a: "length (store st) \<le> a \<and> a < length (store st')"
    then obtain k where k: "a = length (store st) + k" "k < length (unassigned L thr d f st)"
      using len by (metis add_diff_inverse_nat nat_add_left_cancel_less not_less)
    show "last_seen (store st' ! a) = 0"
      unfolding k(1) step_new_nth [OF w s k(2)] by (simp add: new_track_def)
  qed
  show ?thesis using s old len new by blast
qed

theorem last_seen_reset_or_increment_witness:
  "(\<exists>st'. frame_step static_lib (1 / 10000) (1 / 10) 50 20 rows2 2 st1 = Inr st' \<and>
     (\<forall>a \<in> set (tracks st1).
        (last_seen (store st' ! a) = 0) = (a \<in> matched_tracks static_lib 50 rows2 2 st1) \<and>
        (a \<notin> matched_tracks static_lib 50 rows2 2 st1 \<longrightarrow>
           last_seen (store st' ! a) = last_seen (store st1 ! a) + 1)) \<and>
     length (store st') = length (store st1) + length (unassigned static_lib 50 rows2 2 st1) \<and>
     (\<forall>a. length (store st1) \<le> a \<and> a < length (store st') \<longrightarrow> last_seen (store st' ! a) = 0)) \<and>
   frame_step static_lib (1 / 10000) (1 / 10) 50 20 rows2 2 st1 = Inr st2 \<and>
   matched_tracks static_lib 50 rows2 2 st1 = {0} \<and> last_seen (store st2 ! 0) = 0"
proof -
  have e: "matched_tracks static_lib 50 rows2 2 st1 = {0} \<and> last_seen (store st2 ! 0) = 0"
    by (simp add: frame_eval step_eval st1_def st2_def rows2_def)
  show ?thesis
    using last_seen_reset_or_increment [OF lsa_ok_static run_rows2_frame1, of 2]
      run_rows2_frame2 e by blast
qed

section \<open>Association\<close>

lemma filter_eq_single: "distinct xs \<Longrightarrow> x \<in> set xs \<Longrightarrow> filter (\<lambda>y. y = x) xs = [x]"
proof (induction xs)
  case Nil
  then show ?case by simp
next
  case (Cons y ys)
  then show ?case by (auto simp: filter_empty_conv)
qed

lemma pair_filter:
  assumes ok: "assignment_ok (length tr) m ps" and dt: "distinct tr" and p: "p \<in> set ps"
  shows "filter (\<lambda>q. tr ! fst q = tr ! fst p) (accepted thr C ps) =
     (if C ! fst p ! snd p < thr then [p] else [])"
proof -
  have df: "distinct (map fst ps)" and rg: "\<forall>q \<in> set ps. fst q < length tr"
    using ok by (auto simp: assignment_ok_def list_all_iff)
  have dp: "distinct ps" using df by (simp add: distinct_map)
  have inj: "inj_on fst (set ps)" using df by (simp add: distinct_map)
  have eq: "\<And>q. q \<in> set ps \<Longrightarrow> (tr ! fst q = tr ! fst p) = (q = p)"
  proof -
    fix q assume q: "q \<in> set ps"
    have "(tr ! fst q = tr ! fst p) = (fst q = fst p)"
      using rg q p dt by (simp add: nth_eq_iff_index_eq)
    also have "\<dots> = (q = p)" using inj q p by (auto dest: inj_onD)
    finally show "(tr ! fst q = tr ! fst p) = (q = p)" .
  qed
  have "filter (\<lambda>q. tr ! fst q = tr ! fst p) (accepted thr C ps) =
        filter (\<lambda>q. C ! fst q ! snd q < thr \<and> q = p) ps"
    unfolding accepted_def filter_filter
    by (rule filter_cong [OF refl]) (use eq in auto)
  also have "\<dots> = (if C ! fst p ! snd p < thr then filter (\<lambda>q. q = p) ps else [])"
    by (auto simp: filter_empty_conv intro: filter_cong)
  also have "\<dots> = (if C ! fst p ! snd p < thr then [p] else [])"
    using filter_eq_single [OF dp p] by simp
  finally show ?thesis .
qed

lemma step_pair:
  assumes l: "lsa_ok L" and w: "wf st" and s: "frame_step L pn mn thr maxf d f st = Inr st'"
    and p: "p \<in> set (proposed L d f st)"
  shows "store st' ! (tracks st ! fst p) =
     (if costs L d f st ! fst p ! snd p < thr
      then update_track L (observations_of d f ! snd p) (costs L d f st ! fst p ! snd p) f
             (predict_track L (store st ! (tracks st ! fst p)))
      else predict_track L (store st ! (tracks st ! fst p)))"
proof -
  have ok: "assignment_ok (length (tracks st)) (length (observations_of d f)) (proposed L d f st)"
    by (rule lsa_ok_proposed [OF l])
  have i: "fst p < length (tracks st)"
    using ok p by (auto simp: assignment_ok_def list_all_iff)
  then have a: "tracks st ! fst p \<in> set (tracks st)" by simp
  have al: "tracks st ! fst p < length (store st)" by (rule wf_tracks_lt [OF w a])
  show ?thesis
    unfolding step_old_nth [OF w s al] matched_store_nth [OF wf_distinct [OF w] al] matched_def
      pair_filter [OF ok wf_distinct [OF w] p]
    using a by simp
qed

lemma cost_entry:
  assumes w: "wf st" and i: "i < length (tracks st)" and j: "j < length (observations_of d f)"
  shows "costs L d f st ! i ! j =
     norm_diff (filter_x L (filter_predict L (kf (store st ! (tracks st ! i)))))
       (observations_of d f ! j)"
proof -
  have a: "tracks st ! i \<in> set (tracks st)" using i by simp
  have al: "tracks st ! i < length (store st)" by (rule wf_tracks_lt [OF w a])
  show ?thesis
    using i j a al
    by (simp add: costs_def cost_matrix_of_def predicted_def predict_all_nth wf_distinct [OF w]
        predict_track_def)
qed

lemma rejected_unassigned:
  assumes ok: "assignment_ok n m ps" and p: "p \<in> set ps" and r: "\<not> C ! fst p ! snd p < thr"
  shows "snd p \<notin> set (map snd (accepted thr C ps))"
proof
  assume "snd p \<in> set (map snd (accepted thr C ps))"
  then obtain q where q: "q \<in> set ps" "C ! fst q ! snd q < thr" "snd q = snd p"
    by (auto simp: accepted_def)
  have "inj_on snd (set ps)" using ok by (simp add: assignment_ok_def distinct_map)
  then have "q = p" using q(1,3) p by (auto dest: inj_onD)
  then show False using q(2) r by simp
qed

lemma rejected_unmatched:
  assumes ok: "assignment_ok (length tr) m ps" and dt: "distinct tr" and p: "p \<in> set ps"
    and r: "\<not> C ! fst p ! snd p < thr"
  shows "tr ! fst p \<notin> (\<lambda>q. tr ! fst q) ` set (accepted thr C ps)"
proof
  assume "tr ! fst p \<in> (\<lambda>q. tr ! fst q) ` set (accepted thr C ps)"
  then obtain q where "q \<in> set (accepted thr C ps)" "tr ! fst q = tr ! fst p"
    by force
  then have "filter (\<lambda>q. tr ! fst q = tr ! fst p) (accepted thr C ps) \<noteq> []"
    unfolding filter_empty_conv by blast
  then show False using pair_filter [OF ok dt p, of thr C] r by simp
qed

text \<open>
  C3, for a solver that keeps its contract. In every frame of a run, the cost of each pair the solver proposes is the
  Euclidean distance between the predicted position of its track and its detection, and
  the pair is accepted exactly when that cost is strictly below \<open>distance_threshold\<close>.
  An accepted pair updates its track with its detection. A proposed pair whose cost is
  not strictly below the threshold leaves its track with the predict step only (so the
  track is not matched in that frame) and leaves its detection among the unassigned
  ones, which give birth to new tracks. An active track that no accepted pair names is
  left with the predict step only.
\<close>

theorem accepted_match_below_threshold:
  assumes "lsa_ok L" and "track_loop L pn mn thr maxf d fs init_state = Inr st"
  shows "\<exists>st'. frame_step L pn mn thr maxf d f st = Inr st' \<and>
     set (matched L thr d f st) \<subseteq> set (proposed L d f st) \<and>
     (\<forall>p \<in> set (proposed L d f st).
        fst p < length (tracks st) \<and> snd p < length (observations_of d f) \<and>
        costs L d f st ! fst p ! snd p =
          norm_diff (filter_x L (filter_predict L (kf (store st ! (tracks st ! fst p)))))
            (observations_of d f ! snd p) \<and>
        (p \<in> set (matched L thr d f st)) = (costs L d f st ! fst p ! snd p < thr) \<and>
        (costs L d f st ! fst p ! snd p < thr \<longrightarrow>
           store st' ! (tracks st ! fst p) =
             update_track L (observations_of d f ! snd p) (costs L d f st ! fst p ! snd p) f
               (predict_track L (store st ! (tracks st ! fst p)))) \<and>
        (\<not> costs L d f st ! fst p ! snd p < thr \<longrightarrow>
           store st' ! (tracks st ! fst p) = predict_track L (store st ! (tracks st ! fst p)) \<and>
           tracks st ! fst p \<notin> matched_tracks L thr d f st \<and>
           snd p \<in> set (unassigned L thr d f st))) \<and>
     (\<forall>a \<in> set (tracks st). a \<notin> matched_tracks L thr d f st \<longrightarrow>
        store st' ! a = predict_track L (store st ! a))"
proof -
  have w: "wf st" by (rule wf_loop [OF wf_init assms(2)])
  obtain st' where s: "frame_step L pn mn thr maxf d f st = Inr st'"
    using step_total [OF assms(1) w] by blast
  have ok: "assignment_ok (length (tracks st)) (length (observations_of d f)) (proposed L d f st)"
    by (rule lsa_ok_proposed [OF assms(1)])
  have sub: "set (matched L thr d f st) \<subseteq> set (proposed L d f st)"
    by (auto simp: matched_def accepted_def)
  have pairs: "\<forall>p \<in> set (proposed L d f st).
        fst p < length (tracks st) \<and> snd p < length (observations_of d f) \<and>
        costs L d f st ! fst p ! snd p =
          norm_diff (filter_x L (filter_predict L (kf (store st ! (tracks st ! fst p)))))
            (observations_of d f ! snd p) \<and>
        (p \<in> set (matched L thr d f st)) = (costs L d f st ! fst p ! snd p < thr) \<and>
        (costs L d f st ! fst p ! snd p < thr \<longrightarrow>
           store st' ! (tracks st ! fst p) =
             update_track L (observations_of d f ! snd p) (costs L d f st ! fst p ! snd p) f
               (predict_track L (store st ! (tracks st ! fst p)))) \<and>
        (\<not> costs L d f st ! fst p ! snd p < thr \<longrightarrow>
           store st' ! (tracks st ! fst p) = predict_track L (store st ! (tracks st ! fst p)) \<and>
           tracks st ! fst p \<notin> matched_tracks L thr d f st \<and>
           snd p \<in> set (unassigned L thr d f st))"
  proof
    fix p assume p: "p \<in> set (proposed L d f st)"
    have i: "fst p < length (tracks st)" and j: "snd p < length (observations_of d f)"
      using ok p by (auto simp: assignment_ok_def list_all_iff)
    have c: "costs L d f st ! fst p ! snd p =
          norm_diff (filter_x L (filter_predict L (kf (store st ! (tracks st ! fst p)))))
            (observations_of d f ! snd p)"
      by (rule cost_entry [OF w i j])
    have m: "(p \<in> set (matched L thr d f st)) = (costs L d f st ! fst p ! snd p < thr)"
      using p by (simp add: matched_def accepted_def)
    note sp = step_pair [OF assms(1) w s p]
    have acc: "costs L d f st ! fst p ! snd p < thr \<longrightarrow>
           store st' ! (tracks st ! fst p) =
             update_track L (observations_of d f ! snd p) (costs L d f st ! fst p ! snd p) f
               (predict_track L (store st ! (tracks st ! fst p)))"
      using sp by simp
    have rej: "\<not> costs L d f st ! fst p ! snd p < thr \<longrightarrow>
           store st' ! (tracks st ! fst p) = predict_track L (store st ! (tracks st ! fst p)) \<and>
           tracks st ! fst p \<notin> matched_tracks L thr d f st \<and>
           snd p \<in> set (unassigned L thr d f st)"
    proof
      assume r: "\<not> costs L d f st ! fst p ! snd p < thr"
      have 1: "store st' ! (tracks st ! fst p) = predict_track L (store st ! (tracks st ! fst p))"
        using sp r by simp
      have 2: "tracks st ! fst p \<notin> matched_tracks L thr d f st"
        unfolding matched_tracks_def matched_def
        by (rule rejected_unmatched [OF ok wf_distinct [OF w] p r])
      have "snd p \<notin> set (map snd (matched L thr d f st))"
        unfolding matched_def by (rule rejected_unassigned [OF ok p r])
      then have 3: "snd p \<in> set (unassigned L thr d f st)"
        using j by (simp add: unassigned_def)
      show "store st' ! (tracks st ! fst p) = predict_track L (store st ! (tracks st ! fst p)) \<and>
           tracks st ! fst p \<notin> matched_tracks L thr d f st \<and>
           snd p \<in> set (unassigned L thr d f st)"
        using 1 2 3 by blast
    qed
    show "fst p < length (tracks st) \<and> snd p < length (observations_of d f) \<and>
        costs L d f st ! fst p ! snd p =
          norm_diff (filter_x L (filter_predict L (kf (store st ! (tracks st ! fst p)))))
            (observations_of d f ! snd p) \<and>
        (p \<in> set (matched L thr d f st)) = (costs L d f st ! fst p ! snd p < thr) \<and>
        (costs L d f st ! fst p ! snd p < thr \<longrightarrow>
           store st' ! (tracks st ! fst p) =
             update_track L (observations_of d f ! snd p) (costs L d f st ! fst p ! snd p) f
               (predict_track L (store st ! (tracks st ! fst p)))) \<and>
        (\<not> costs L d f st ! fst p ! snd p < thr \<longrightarrow>
           store st' ! (tracks st ! fst p) = predict_track L (store st ! (tracks st ! fst p)) \<and>
           tracks st ! fst p \<notin> matched_tracks L thr d f st \<and>
           snd p \<in> set (unassigned L thr d f st))"
      using i j c m acc rej by blast
  qed
  have rest: "\<forall>a \<in> set (tracks st). a \<notin> matched_tracks L thr d f st \<longrightarrow>
        store st' ! a = predict_track L (store st ! a)"
  proof (intro ballI impI)
    fix a assume a: "a \<in> set (tracks st)" and n: "a \<notin> matched_tracks L thr d f st"
    show "store st' ! a = predict_track L (store st ! a)"
      using step_unmatched [OF w s wf_tracks_lt [OF w a] n] a by simp
  qed
  show ?thesis using s sub pairs rest by blast
qed

theorem accepted_match_below_threshold_witness:
  "(\<exists>st'. frame_step static_lib (1 / 10000) (1 / 10) 50 20 rows3 2 st1 = Inr st' \<and>
     set (matched static_lib 50 rows3 2 st1) \<subseteq> set (proposed static_lib rows3 2 st1) \<and>
     (\<forall>p \<in> set (proposed static_lib rows3 2 st1).
        fst p < length (tracks st1) \<and> snd p < length (observations_of rows3 2) \<and>
        costs static_lib rows3 2 st1 ! fst p ! snd p =
          norm_diff (filter_x static_lib (filter_predict static_lib (kf (store st1 ! (tracks st1 ! fst p)))))
            (observations_of rows3 2 ! snd p) \<and>
        (p \<in> set (matched static_lib 50 rows3 2 st1)) = (costs static_lib rows3 2 st1 ! fst p ! snd p < 50) \<and>
        (costs static_lib rows3 2 st1 ! fst p ! snd p < 50 \<longrightarrow>
           store st' ! (tracks st1 ! fst p) =
             update_track static_lib (observations_of rows3 2 ! snd p) (costs static_lib rows3 2 st1 ! fst p ! snd p) 2
               (predict_track static_lib (store st1 ! (tracks st1 ! fst p)))) \<and>
        (\<not> costs static_lib rows3 2 st1 ! fst p ! snd p < 50 \<longrightarrow>
           store st' ! (tracks st1 ! fst p) = predict_track static_lib (store st1 ! (tracks st1 ! fst p)) \<and>
           tracks st1 ! fst p \<notin> matched_tracks static_lib 50 rows3 2 st1 \<and>
           snd p \<in> set (unassigned static_lib 50 rows3 2 st1))) \<and>
     (\<forall>a \<in> set (tracks st1). a \<notin> matched_tracks static_lib 50 rows3 2 st1 \<longrightarrow>
        store st' ! a = predict_track static_lib (store st1 ! a))) \<and>
   proposed static_lib rows3 2 st1 = [(0, 0)] \<and> costs static_lib rows3 2 st1 = [[100]] \<and>
   matched static_lib 50 rows3 2 st1 = [] \<and> unassigned static_lib 50 rows3 2 st1 = [0]"
proof -
  have e: "proposed static_lib rows3 2 st1 = [(0, 0)] \<and> costs static_lib rows3 2 st1 = [[100]] \<and>
   matched static_lib 50 rows3 2 st1 = [] \<and> unassigned static_lib 50 rows3 2 st1 = [0]"
    by (simp add: frame_eval step_eval st1_def rows3_def)
  show ?thesis
    using accepted_match_below_threshold [OF lsa_ok_static run_rows3_frame1, of 2] e by blast
qed

section \<open>Detections\<close>

lemma positions_predict_track [simp]:
  "positions (predict_track L t) = positions t" "frame_ids (predict_track L t) = frame_ids t"
  by (simp_all add: predict_track_def)

text \<open>
  C10, for a solver that keeps its contract. In every frame of a run each detection of the frame is consumed exactly once.
  The accepted pairs use no track twice and no detection twice, and every detection
  index is either the detection of an accepted pair or unassigned, never both. The
  detection of an accepted pair is appended, with the frame id, to the positions and
  frame ids of the track of that pair, different pairs naming different tracks; no other
  existing track changes its positions or frame ids. The tracks added to the store in
  the frame are, in order, one for each unassigned detection, with that detection as
  their only position and the frame as their only frame id.
\<close>

theorem detection_consumed_once:
  assumes "lsa_ok L" and "track_loop L pn mn thr maxf d fs init_state = Inr st"
  shows "\<exists>st'. frame_step L pn mn thr maxf d f st = Inr st' \<and>
     distinct (map fst (matched L thr d f st)) \<and>
     distinct (map snd (matched L thr d f st)) \<and>
     distinct (unassigned L thr d f st) \<and>
     inj_on (\<lambda>p. tracks st ! fst p) (set (matched L thr d f st)) \<and>
     set (map snd (matched L thr d f st)) \<union> set (unassigned L thr d f st) =
       {0..<length (observations_of d f)} \<and>
     set (map snd (matched L thr d f st)) \<inter> set (unassigned L thr d f st) = {} \<and>
     (\<forall>p \<in> set (matched L thr d f st).
        fst p < length (tracks st) \<and>
        positions (store st' ! (tracks st ! fst p)) =
          positions (store st ! (tracks st ! fst p)) @ [observations_of d f ! snd p] \<and>
        frame_ids (store st' ! (tracks st ! fst p)) =
          frame_ids (store st ! (tracks st ! fst p)) @ [f]) \<and>
     (\<forall>a. a < length (store st) \<and> a \<notin> matched_tracks L thr d f st \<longrightarrow>
        positions (store st' ! a) = positions (store st ! a) \<and>
        frame_ids (store st' ! a) = frame_ids (store st ! a)) \<and>
     length (store st') = length (store st) + length (unassigned L thr d f st) \<and>
     (\<forall>k. k < length (unassigned L thr d f st) \<longrightarrow>
        positions (store st' ! (length (store st) + k)) =
          [observations_of d f ! (unassigned L thr d f st ! k)] \<and>
        frame_ids (store st' ! (length (store st) + k)) = [f])"
proof -
  let ?M = "matched L thr d f st"
  let ?U = "unassigned L thr d f st"
  let ?m = "length (observations_of d f)"
  have w: "wf st" by (rule wf_loop [OF wf_init assms(2)])
  obtain st' where s: "frame_step L pn mn thr maxf d f st = Inr st'"
    using step_total [OF assms(1) w] by blast
  have ok: "assignment_ok (length (tracks st)) ?m (proposed L d f st)"
    by (rule lsa_ok_proposed [OF assms(1)])
  have sub: "set ?M \<subseteq> set (proposed L d f st)"
    by (auto simp: matched_def accepted_def)
  have d1: "distinct (map fst ?M)"
    unfolding matched_def accepted_def
    using ok by (simp add: assignment_ok_def distinct_map_filter)
  have d2: "distinct (map snd ?M)"
    unfolding matched_def accepted_def
    using ok by (simp add: assignment_ok_def distinct_map_filter)
  have d3: "distinct ?U" by (simp add: unassigned_def)
  have rg: "\<forall>p \<in> set ?M. fst p < length (tracks st) \<and> snd p < ?m"
    using ok sub by (auto simp: assignment_ok_def list_all_iff)
  have inj: "inj_on (\<lambda>p. tracks st ! fst p) (set ?M)"
  proof (rule inj_onI)
    fix p q assume p: "p \<in> set ?M" and q: "q \<in> set ?M"
      and e: "tracks st ! fst p = tracks st ! fst q"
    have "fst p = fst q"
      using e rg p q wf_distinct [OF w] by (simp add: nth_eq_iff_index_eq)
    moreover have "inj_on fst (set ?M)" using d1 by (simp add: distinct_map)
    ultimately show "p = q" using p q by (auto dest: inj_onD)
  qed
  have un: "set (map snd ?M) \<union> set ?U = {0..<?m}"
    using rg by (auto simp: unassigned_def)
  have dj: "set (map snd ?M) \<inter> set ?U = {}"
    by (auto simp: unassigned_def)
  have app: "\<forall>p \<in> set ?M.
        fst p < length (tracks st) \<and>
        positions (store st' ! (tracks st ! fst p)) =
          positions (store st ! (tracks st ! fst p)) @ [observations_of d f ! snd p] \<and>
        frame_ids (store st' ! (tracks st ! fst p)) =
          frame_ids (store st ! (tracks st ! fst p)) @ [f]"
  proof
    fix p assume p: "p \<in> set ?M"
    then have pp: "p \<in> set (proposed L d f st)" using sub by blast
    have c: "costs L d f st ! fst p ! snd p < thr"
      using p by (simp add: matched_def accepted_def)
    show "fst p < length (tracks st) \<and>
        positions (store st' ! (tracks st ! fst p)) =
          positions (store st ! (tracks st ! fst p)) @ [observations_of d f ! snd p] \<and>
        frame_ids (store st' ! (tracks st ! fst p)) =
          frame_ids (store st ! (tracks st ! fst p)) @ [f]"
      using rg p c by (simp add: step_pair [OF assms(1) w s pp] update_track_def)
  qed
  have same: "\<forall>a. a < length (store st) \<and> a \<notin> matched_tracks L thr d f st \<longrightarrow>
        positions (store st' ! a) = positions (store st ! a) \<and>
        frame_ids (store st' ! a) = frame_ids (store st ! a)"
  proof (intro allI impI)
    fix a assume a: "a < length (store st) \<and> a \<notin> matched_tracks L thr d f st"
    then have al: "a < length (store st)" and n: "a \<notin> matched_tracks L thr d f st"
      by simp_all
    show "positions (store st' ! a) = positions (store st ! a) \<and>
        frame_ids (store st' ! a) = frame_ids (store st ! a)"
      by (simp add: step_unmatched [OF w s al n])
  qed
  have len: "length (store st') = length (store st) + length ?U"
    by (rule step_length [OF w s])
  have new: "\<forall>k. k < length ?U \<longrightarrow>
        positions (store st' ! (length (store st) + k)) = [observations_of d f ! (?U ! k)] \<and>
        frame_ids (store st' ! (length (store st) + k)) = [f]"
    by (simp add: step_new_nth [OF w s] new_track_def)
  show ?thesis
    using s d1 d2 d3 inj un dj app same len new by blast
qed

theorem detection_consumed_once_witness:
  "(\<exists>st'. frame_step static_lib (1 / 10000) (1 / 10) 50 20 rows2 2 st1 = Inr st' \<and>
     distinct (map fst (matched static_lib 50 rows2 2 st1)) \<and>
     distinct (map snd (matched static_lib 50 rows2 2 st1)) \<and>
     distinct (unassigned static_lib 50 rows2 2 st1) \<and>
     inj_on (\<lambda>p. tracks st1 ! fst p) (set (matched static_lib 50 rows2 2 st1)) \<and>
     set (map snd (matched static_lib 50 rows2 2 st1)) \<union> set (unassigned static_lib 50 rows2 2 st1) =
       {0..<length (observations_of rows2 2)} \<and>
     set (map snd (matched static_lib 50 rows2 2 st1)) \<inter> set (unassigned static_lib 50 rows2 2 st1) = {} \<and>
     (\<forall>p \<in> set (matched static_lib 50 rows2 2 st1).
        fst p < length (tracks st1) \<and>
        positions (store st' ! (tracks st1 ! fst p)) =
          positions (store st1 ! (tracks st1 ! fst p)) @ [observations_of rows2 2 ! snd p] \<and>
        frame_ids (store st' ! (tracks st1 ! fst p)) =
          frame_ids (store st1 ! (tracks st1 ! fst p)) @ [2]) \<and>
     (\<forall>a. a < length (store st1) \<and> a \<notin> matched_tracks static_lib 50 rows2 2 st1 \<longrightarrow>
        positions (store st' ! a) = positions (store st1 ! a) \<and>
        frame_ids (store st' ! a) = frame_ids (store st1 ! a)) \<and>
     length (store st') = length (store st1) + length (unassigned static_lib 50 rows2 2 st1) \<and>
     (\<forall>k. k < length (unassigned static_lib 50 rows2 2 st1) \<longrightarrow>
        positions (store st' ! (length (store st1) + k)) =
          [observations_of rows2 2 ! (unassigned static_lib 50 rows2 2 st1 ! k)] \<and>
        frame_ids (store st' ! (length (store st1) + k)) = [2])) \<and>
   matched static_lib 50 rows2 2 st1 = [(0, 0)] \<and> unassigned static_lib 50 rows2 2 st1 = []"
proof -
  have e: "matched static_lib 50 rows2 2 st1 = [(0, 0)] \<and> unassigned static_lib 50 rows2 2 st1 = []"
    by (simp add: frame_eval step_eval st1_def rows2_def)
  show ?thesis
    using detection_consumed_once [OF lsa_ok_static run_rows2_frame1, of 2] e by blast
qed

section \<open>Pruning and the registry\<close>

lemma step_aged:
  assumes "wf st" and "frame_step L pn mn thr maxf d f st = Inr st'"
  shows "\<forall>a \<in> set (tracks st'). last_seen (store st' ! a) \<le> maxf"
  unfolding step_facts(3) [OF assms] by auto

lemma loop_aged:
  "wf st0 \<Longrightarrow> \<forall>a \<in> set (tracks st0). last_seen (store st0 ! a) \<le> maxf \<Longrightarrow>
   track_loop L pn mn thr maxf d fs st0 = Inr st \<Longrightarrow>
   \<forall>a \<in> set (tracks st). last_seen (store st ! a) \<le> maxf"
proof (induction fs arbitrary: st0)
  case Nil
  then show ?case by simp
next
  case (Cons f fs)
  from Cons.prems(3) obtain st' where s: "frame_step L pn mn thr maxf d f st0 = Inr st'"
    and r: "track_loop L pn mn thr maxf d fs st' = Inr st"
    by (auto split: sum.splits)
  show ?case
    by (rule Cons.IH [OF wf_step [OF Cons.prems(1) s] step_aged [OF Cons.prems(1) s] r])
qed

lemma step_registered:
  assumes w: "wf st" and s: "frame_step L pn mn thr maxf d f st = Inr st'"
    and m: "0 \<le> maxf" and r: "all_tracks st = [0..<length (store st)]"
  shows "all_tracks st' = [0..<length (store st')]"
proof -
  let ?n = "length (store st)"
  let ?U = "unassigned L thr d f st"
  have keep: "filter (\<lambda>a. last_seen (store st' ! a) \<le> maxf) [?n..<?n + length ?U] = [?n..<?n + length ?U]"
  proof (rule filter_True, rule ballI)
    fix a assume "a \<in> set [?n..<?n + length ?U]"
    then obtain k where k: "a = ?n + k" "k < length ?U"
      by (metis add_diff_inverse_nat atLeastLessThan_iff nat_add_left_cancel_less not_less set_upt)
    show "last_seen (store st' ! a) \<le> maxf"
      unfolding k(1) step_new_nth [OF w s k(2)] using m by (simp add: new_track_def)
  qed
  have "[0..<?n + length ?U] = [0..<?n] @ [?n..<?n + length ?U]"
    by (rule upt_add_eq_append) simp
  then show ?thesis
    unfolding step_facts(4) [OF w s] keep r step_length [OF w s] by simp
qed

lemma loop_registered:
  "wf st0 \<Longrightarrow> 0 \<le> maxf \<Longrightarrow> all_tracks st0 = [0..<length (store st0)] \<Longrightarrow>
   track_loop L pn mn thr maxf d fs st0 = Inr st \<Longrightarrow>
   all_tracks st = [0..<length (store st)]"
proof (induction fs arbitrary: st0)
  case Nil
  then show ?case by simp
next
  case (Cons f fs)
  from Cons.prems(4) obtain st' where s: "frame_step L pn mn thr maxf d f st0 = Inr st'"
    and r: "track_loop L pn mn thr maxf d fs st' = Inr st"
    by (auto split: sum.splits)
  show ?case
    by (rule Cons.IH [OF wf_step [OF Cons.prems(1) s] Cons.prems(2)
          step_registered [OF Cons.prems(1) s Cons.prems(2,3)] r])
qed

lemma registry_ident:
  assumes "wf st"
  shows "map ident (registry st) = all_tracks st"
proof -
  have "\<forall>a \<in> set (all_tracks st). ident (store st ! a) = a"
    using assms wf_ident [OF assms] by (auto simp: wf_def)
  then show ?thesis
    by (simp add: registry_def o_def map_idI)
qed

text \<open>
  C5, as the code has it: when \<open>max_frames_before_death\<close> is not negative (and
  the solver keeps its contract). In every
  frame of a run, a track that is active when the frame starts has
  \<open>last_seen \<le> max_frames_before_death\<close> then, and stays in the active list at the
  end of the frame exactly when its \<open>last_seen\<close> still does not exceed the limit; the
  active list gains only tracks born in the frame, so a removed track does not come back,
  and at the end of the frame no active track exceeds the limit. The registry holds every
  track ever created, pruned or not, exactly once: its ids are \<open>0, 1, \<dots>\<close> up to the
  number of tracks created.
\<close>

theorem pruned_tracks_stay_registered:
  assumes "lsa_ok L" and "0 \<le> maxf"
    and "track_loop L pn mn thr maxf d fs init_state = Inr st"
  shows "\<exists>st'. frame_step L pn mn thr maxf d f st = Inr st' \<and>
     (\<forall>a \<in> set (tracks st').  last_seen (store st' ! a) \<le> maxf) \<and>
     (\<forall>a \<in> set (tracks st).
        last_seen (store st ! a) \<le> maxf \<and>
        (a \<in> set (tracks st')) = (last_seen (store st' ! a) \<le> maxf)) \<and>
     set (tracks st') \<subseteq> set (tracks st) \<union> {length (store st)..<length (store st')} \<and>
     all_tracks st' = [0..<length (store st')] \<and>
     map ident (registry st') = [0..<length (store st')] \<and>
     map ident (store st') = [0..<length (store st')]"
proof -
  have w: "wf st" by (rule wf_loop [OF wf_init assms(3)])
  obtain st' where s: "frame_step L pn mn thr maxf d f st = Inr st'"
    using step_total [OF assms(1) w] by blast
  have w': "wf st'" by (rule wf_step [OF w s])
  have i0: "\<forall>a \<in> set (tracks (init_state :: 'a loop_state)).
      last_seen (store (init_state :: 'a loop_state) ! a) \<le> maxf"
    by (simp add: init_state_def)
  have a0: "\<forall>a \<in> set (tracks st). last_seen (store st ! a) \<le> maxf"
    by (rule loop_aged [OF wf_init i0 assms(3)])
  have a1: "\<forall>a \<in> set (tracks st'). last_seen (store st' ! a) \<le> maxf"
    by (rule step_aged [OF w s])
  have r0: "all_tracks st = [0..<length (store st)]"
    by (rule loop_registered [OF wf_init assms(2) _ assms(3)]) (simp add: init_state_def)
  have r1: "all_tracks st' = [0..<length (store st')]"
    by (rule step_registered [OF w s assms(2) r0])
  have k: "\<forall>a \<in> set (tracks st).
        last_seen (store st ! a) \<le> maxf \<and>
        (a \<in> set (tracks st')) = (last_seen (store st' ! a) \<le> maxf)"
    using a0 unfolding step_facts(3) [OF w s] by auto
  have sub: "set (tracks st') \<subseteq> set (tracks st) \<union> {length (store st)..<length (store st')}"
    unfolding step_facts(3) [OF w s] step_length [OF w s] by auto
  have ri: "map ident (registry st') = [0..<length (store st')]"
    using registry_ident [OF w'] r1 by simp
  have si: "map ident (store st') = [0..<length (store st')]"
    using w' by (simp add: wf_def)
  show ?thesis using s a1 k sub r1 ri si by blast
qed

theorem pruned_tracks_stay_registered_witness:
  "(0::int) \<le> 20 \<and>
   (\<exists>st'. frame_step static_lib (1 / 10000) (1 / 10) 50 20 rows2 2 st1 = Inr st' \<and>
     (\<forall>a \<in> set (tracks st').  last_seen (store st' ! a) \<le> 20) \<and>
     (\<forall>a \<in> set (tracks st1).
        last_seen (store st1 ! a) \<le> 20 \<and>
        (a \<in> set (tracks st')) = (last_seen (store st' ! a) \<le> 20)) \<and>
     set (tracks st') \<subseteq> set (tracks st1) \<union> {length (store st1)..<length (store st')} \<and>
     all_tracks st' = [0..<length (store st')] \<and>
     map ident (registry st') = [0..<length (store st')] \<and>
     map ident (store st') = [0..<length (store st')])"
proof -
  have m: "(0::int) \<le> 20" by simp
  show ?thesis
    using pruned_tracks_stay_registered [OF lsa_ok_static m run_rows2_frame1, of 2] m by blast
qed

text \<open>
  With \<open>max_frames_before_death = -1\<close> a track is pruned at the end of the frame it is
  born in, before the registry loop sees it. The run over one frame with one detection
  creates the track with id 0 and leaves the registry empty.
\<close>

theorem negative_age_counterexample:
  "\<exists>st. track_loop static_lib (1 / 10000) (1 / 10) 50 (- 1) [(1, 0, 0)] [1] init_state = Inr st \<and>
     map ident (store st) = [0] \<and> tracks st = [] \<and> all_tracks st = [] \<and> registry st = []"
proof -
  have "track_loop static_lib (1 / 10000) (1 / 10) 50 (- 1) [(1, 0, 0)] [1] init_state =
      Inr \<lparr>store = [\<lparr>kf = (0, 0), ident = 0, last_seen = 0, positions = [(0, 0)], distance = 0,
                     frame_ids = [1]\<rparr>],
          tracks = [], all_tracks = [], track_id = 1\<rparr>"
    by (simp add: step_eval)
  then show ?thesis by (simp add: registry_def)
qed

section \<open>The surviving tracks\<close>

lemma insort_key_lex:
  fixes f :: "'a \<Rightarrow> int" and g :: "'a \<Rightarrow> nat"
  assumes "sorted_wrt (\<lambda>a b. f a < f b \<or> (f a = f b \<and> g a < g b)) xs"
    and "\<forall>y \<in> set xs. g x < g y"
  shows "sorted_wrt (\<lambda>a b. f a < f b \<or> (f a = f b \<and> g a < g b)) (insort_key f x xs)"
  using assms
proof (induction xs)
  case Nil
  then show ?case by simp
next
  case (Cons y ys)
  show ?case
  proof (cases "f x \<le> f y")
    case True
    have "\<forall>z \<in> set (y # ys). f x < f z \<or> (f x = f z \<and> g x < g z)"
      using True Cons.prems by fastforce
    then show ?thesis using True Cons.prems(1) by simp
  next
    case False
    have "sorted_wrt (\<lambda>a b. f a < f b \<or> (f a = f b \<and> g a < g b)) (insort_key f x ys)"
      using Cons.IH Cons.prems by simp
    then show ?thesis using False Cons.prems(1) by (auto simp: set_insort_key)
  qed
qed

lemma sort_key_lex:
  fixes f :: "'a \<Rightarrow> int" and g :: "'a \<Rightarrow> nat"
  assumes "sorted_wrt (<) (map g xs)"
  shows "sorted_wrt (\<lambda>a b. f a < f b \<or> (f a = f b \<and> g a < g b)) (sort_key f xs)"
  using assms
proof (induction xs)
  case Nil
  then show ?case by simp
next
  case (Cons x xs)
  have "\<forall>y \<in> set (sort_key f xs). g x < g y" using Cons.prems by simp
  moreover have "sorted_wrt (\<lambda>a b. f a < f b \<or> (f a = f b \<and> g a < g b)) (sort_key f xs)"
    using Cons by simp
  ultimately show ?case by (simp add: insort_key_lex)
qed

lemma registry_sorted: "wf st \<Longrightarrow> sorted_wrt (<) (map ident (registry st))"
  by (simp add: registry_ident) (simp add: wf_def)

lemma sorted_reverse_lex:
  assumes "sorted_wrt (<) (map ident xs)"
  shows "sorted_wrt (\<lambda>t u. length (positions t) > length (positions u) \<or>
            (length (positions t) = length (positions u) \<and> ident t < ident u))
          (sorted_reverse (\<lambda>t. int (length (positions t))) xs)"
  using sort_key_lex [of ident xs "\<lambda>t. - int (length (positions t))", OF assms]
  by (simp add: sorted_reverse_def)

lemma sorted_reverse_ties:
  "filter (\<lambda>t. length (positions t) = n) (sorted_reverse (\<lambda>t. int (length (positions t))) xs) =
   filter (\<lambda>t. length (positions t) = n) xs"
  using sort_key_stable [of "\<lambda>t. - int (length (positions t))" "- int n" xs]
  by (simp add: sorted_reverse_def)

text \<open>
  C7, for a solver that keeps its contract. After the frame range is processed, the surviving track list holds exactly the
  tracks of the registry with more than 5 positions and a distance above 100, each as
  often as the registry does. It is in descending order of the number of positions, and
  tracks with the same number of positions are in ascending order of id, the order in
  which the registry lists them, which is the order of creation. The list is what
  \<open>track_insects_one_file\<close> stores in \<open>self.all_tracks\<close>, whether it then returns or
  raises while it computes the directions.
\<close>

theorem survivors_filtered_and_sorted:
  assumes "lsa_ok L" and "df self = Some c"
  shows "\<exists>st S.
     track_loop L (process_noise self) (measurement_noise self) (distance_threshold self)
       (max_frames_before_death self) (rows c) [start_frame self..end_frame self] init_state
       = Inr st \<and>
     surviving_tracks L self = Inr S \<and>
     mset S = mset (filter (\<lambda>t. 5 < length (positions t) \<and> 100 < distance t) (registry st)) \<and>
     sorted_wrt (\<lambda>t u. length (positions t) > length (positions u) \<or>
                  (length (positions t) = length (positions u) \<and> ident t < ident u)) S \<and>
     (\<forall>n. filter (\<lambda>t. length (positions t) = n) S =
          filter (\<lambda>t. length (positions t) = n)
            (filter (\<lambda>t. 5 < length (positions t) \<and> 100 < distance t) (registry st))) \<and>
     sorted_wrt (<) (map ident (registry st)) \<and>
     (\<forall>self'. track_insects_one_file L self = Inr self' \<longrightarrow> self_all_tracks self' = S) \<and>
     (\<forall>err self'. track_insects_one_file L self = Inl (err, self') \<longrightarrow>
        self_all_tracks self' = S)"
proof -
  let ?keep = "\<lambda>t :: 'a track. 5 < length (positions t) \<and> 100 < distance t"
  obtain st where st: "track_loop L (process_noise self) (measurement_noise self)
       (distance_threshold self) (max_frames_before_death self) (rows c)
       [start_frame self..end_frame self] init_state = Inr st"
    using loop_total [OF assms(1) wf_init] by blast
  have w: "wf st" by (rule wf_loop [OF wf_init st])
  define S where "S = sorted_reverse (\<lambda>t. int (length (positions t))) (filter ?keep (registry st))"
  have k: "keep_track = ?keep" by (rule ext) (simp add: keep_track_def)
  have sv: "surviving_tracks L self = Inr S"
    by (simp add: surviving_tracks_def assms(2) st S_def k)
  have ms: "mset S = mset (filter ?keep (registry st))"
    by (simp add: S_def sorted_reverse_def)
  have rs: "sorted_wrt (<) (map ident (registry st))" by (rule registry_sorted [OF w])
  have fs: "sorted_wrt (<) (map ident (filter ?keep (registry st)))"
    using rs by (simp add: sorted_wrt_map sorted_wrt_filter)
  have so: "sorted_wrt (\<lambda>t u. length (positions t) > length (positions u) \<or>
                  (length (positions t) = length (positions u) \<and> ident t < ident u)) S"
    unfolding S_def by (rule sorted_reverse_lex [OF fs])
  have ti: "\<forall>n. filter (\<lambda>t. length (positions t) = n) S =
          filter (\<lambda>t. length (positions t) = n) (filter ?keep (registry st))"
    unfolding S_def by (simp only: sorted_reverse_ties) simp
  have al: "\<forall>self'. track_insects_one_file L self = Inr self' \<longrightarrow> self_all_tracks self' = S"
    by (auto simp: track_insects_one_file_def sv split: sum.splits)
  have ar: "\<forall>err self'. track_insects_one_file L self = Inl (err, self') \<longrightarrow>
        self_all_tracks self' = S"
    by (auto simp: track_insects_one_file_def sv split: sum.splits)
  show ?thesis using st sv ms so ti rs al ar by blast
qed

theorem survivors_filtered_and_sorted_witness:
  "(\<exists>st S.
     track_loop static_lib (process_noise engine6) (measurement_noise engine6) (distance_threshold engine6)
       (max_frames_before_death engine6) (rows csv6) [start_frame engine6..end_frame engine6] init_state
       = Inr st \<and>
     surviving_tracks static_lib engine6 = Inr S \<and>
     mset S = mset (filter (\<lambda>t. 5 < length (positions t) \<and> 100 < distance t) (registry st)) \<and>
     sorted_wrt (\<lambda>t u. length (positions t) > length (positions u) \<or>
                  (length (positions t) = length (positions u) \<and> ident t < ident u)) S \<and>
     (\<forall>n. filter (\<lambda>t. length (positions t) = n) S =
          filter (\<lambda>t. length (positions t) = n)
            (filter (\<lambda>t. 5 < length (positions t) \<and> 100 < distance t) (registry st))) \<and>
     sorted_wrt (<) (map ident (registry st)) \<and>
     (\<forall>self'. track_insects_one_file static_lib engine6 = Inr self' \<longrightarrow> self_all_tracks self' = S) \<and>
     (\<forall>err self'. track_insects_one_file static_lib engine6 = Inl (err, self') \<longrightarrow>
        self_all_tracks self' = S)) \<and>
   surviving_tracks static_lib engine6 = Inr [track6]"
proof -
  have d: "df engine6 = Some csv6" by (simp add: engine6_def)
  show ?thesis
    using survivors_filtered_and_sorted [OF lsa_ok_static d] survivors_engine6 by blast
qed

section \<open>Files without a zone\<close>

lemma ellipses_reset [simp]: "ellipses (reset_variables s) = ellipses s"
  by (simp add: reset_variables_def)

lemma ellipses_load_csv: "load_csv s w p = Inr (b, s') \<Longrightarrow> ellipses s' = ellipses s"
  by (auto simp: load_csv_def Let_def split: option.splits if_splits)

lemma ellipses_one_file: "track_insects_one_file L s = Inr s' \<Longrightarrow> ellipses s' = ellipses s"
  by (auto simp: track_insects_one_file_def split: sum.splits)

lemma skip_no_zone:
  "ellipses s = E \<Longrightarrow>
   track_insects_files L fs (s, w) =
   track_insects_files L (filter (\<lambda>file. E (get_date_from_filename file) \<noteq> None) fs) (s, w)"
proof (induction fs arbitrary: s w)
  case Nil
  then show ?case by simp
next
  case (Cons x rest)
  show ?case
  proof (cases "E (get_date_from_filename x) = None")
    case True
    then show ?thesis using Cons.IH [OF Cons.prems] Cons.prems by simp
  next
    case False
    let ?rest = "filter (\<lambda>file. E (get_date_from_filename file) \<noteq> None) rest"
    obtain z where zone: "ellipses s (get_date_from_filename x) = Some z"
      using False Cons.prems by blast
    have r: "ellipses (reset_variables s) = E" using Cons.prems by simp
    have flt: "filter (\<lambda>file. E (get_date_from_filename file) \<noteq> None) (x # rest) = x # ?rest"
      using False by simp
    show ?thesis
    proof (cases "check_already_processed w x")
      case True
      then show ?thesis
        unfolding flt using zone Cons.IH [OF r] by (simp add: Let_def)
    next
      case new: False
      show ?thesis
      proof (cases "load_csv (reset_variables s) w x")
        case (Inl err)
        then show ?thesis
          unfolding flt using zone new by (simp add: Let_def)
      next
        case (Inr bs)
        obtain b s2 where bs: "bs = (b, s2)" by (cases bs)
        have l: "load_csv (reset_variables s) w x = Inr (b, s2)" using Inr bs by simp
        have e2: "ellipses s2 = E" using ellipses_load_csv [OF l] r by simp
        show ?thesis
        proof (cases b)
          case False
          then show ?thesis
            unfolding flt using zone new l Cons.IH [OF e2] by (simp add: Let_def)
        next
          case True
          show ?thesis
          proof (cases "track_insects_one_file L s2")
            case (Inl es)
            then show ?thesis
              unfolding flt using zone new l True by (simp add: Let_def split: prod.splits)
          next
            case one: (Inr s3)
            have e3: "ellipses s3 = E" using ellipses_one_file [OF one] e2 by simp
            show ?thesis
            proof (cases "write_stats s3 w")
              case (Inl err)
              then show ?thesis
                unfolding flt using zone new l True one by (simp add: Let_def)
            next
              case (Inr w')
              then show ?thesis
                unfolding flt using zone new l True one Cons.IH [OF e3] by (simp add: Let_def)
            qed
          qed
        qed
      qed
    qed
  qed
qed

text \<open>
  C1, as the code has it. A file whose date has no zone does not end the run:
  \<open>track_insects\<close> skips it and goes on with the other files. Nothing is loaded,
  tracked or written for the skipped file: the outcome of the run, engine and
  statistics file, is that of the run over the files whose date has a zone. This holds
  for the loop over any list of files from any engine, and for \<open>track_insects\<close> on
  \<open>self.csv_files\<close>.
\<close>

theorem file_without_zone_skipped:
  "track_insects_files L fs (s, w) =
     track_insects_files L
       (filter (\<lambda>file. ellipses s (get_date_from_filename file) \<noteq> None) fs) (s, w) \<and>
   track_insects L s w =
     track_insects_files L
       (filter (\<lambda>file. ellipses s (get_date_from_filename file) \<noteq> None) (csv_files s))
       (s, w)"
proof (intro conjI)
  show "track_insects_files L fs (s, w) =
     track_insects_files L
       (filter (\<lambda>file. ellipses s (get_date_from_filename file) \<noteq> None) fs) (s, w)"
    by (rule skip_no_zone [OF refl])
  show "track_insects L s w =
     track_insects_files L
       (filter (\<lambda>file. ellipses s (get_date_from_filename file) \<noteq> None) (csv_files s))
       (s, w)"
    using skip_no_zone [OF refl, of L "csv_files s" s w]
    by (cases "csv_files s = []") (simp_all add: track_insects_def)
qed

lemma no_zone_file8: "ellipses engine0 (get_date_from_filename file8) = None"
  by (simp add: engine0_def date_file8)

theorem file_without_zone_skipped_witness:
  "\<forall>L. track_insects_files L [file8, file8] (engine0, world8) = Inr (engine0, world8) \<and>
       track_insects L engine0 world8 = Inr (engine0, world8)"
proof
  fix L :: "point lib"
  have c: "csv_files engine0 = [file8]" by (simp add: engine0_def)
  show "track_insects_files L [file8, file8] (engine0, world8) = Inr (engine0, world8) \<and>
       track_insects L engine0 world8 = Inr (engine0, world8)"
    using file_without_zone_skipped [of L "[file8, file8]" engine0 world8] no_zone_file8 c
    by simp
qed

text \<open>
  Every frame id of a track is a frame the loop has processed, whatever the library
  does; so the frame ids of a surviving track lie in the frame range of the file.
\<close>

lemma frame_ids_newborn: "t \<in> set (newborn L pn mn obs f n js) \<Longrightarrow> frame_ids t = [f]"
  by (induction js arbitrary: n) (auto simp: new_track_def)

lemma step_frame_ids:
  assumes w: "wf st" and s: "frame_step L pn mn thr maxf d f st = Inr st'"
    and h: "\<forall>t \<in> set (store st). set (frame_ids t) \<subseteq> F"
  shows "\<forall>t \<in> set (store st'). set (frame_ids t) \<subseteq> insert f F"
proof
  fix t assume "t \<in> set (store st')"
  then consider "t \<in> set (matched_store L thr d f st)"
    | "t \<in> set (newborn L pn mn (observations_of d f) f (length (store st))
                  (unassigned L thr d f st))"
    unfolding step_facts(2) [OF w s] by auto
  then show "set (frame_ids t) \<subseteq> insert f F"
  proof cases
    case 1
    then obtain a where a: "a < length (store st)" "t = matched_store L thr d f st ! a"
      by (auto simp: in_set_conv_nth)
    have o: "set (frame_ids (store st ! a)) \<subseteq> F" using h a(1) by simp
    have "set (frame_ids
       (fold (\<lambda>p. update_track L (observations_of d f ! snd p) (costs L d f st ! fst p ! snd p) f)
          (filter (\<lambda>p. tracks st ! fst p = a) (matched L thr d f st))
          (if a \<in> set (tracks st) then predict_track L (store st ! a) else store st ! a)))
       \<subseteq> insert f F"
      by (rule fold_update_track_inv) (use o in \<open>auto simp: update_track_def\<close>)
    then show ?thesis
      unfolding a(2) matched_store_nth [OF wf_distinct [OF w] a(1)] .
  next
    case 2
    then show ?thesis by (simp add: frame_ids_newborn)
  qed
qed

lemma loop_frame_ids:
  "wf st0 \<Longrightarrow> \<forall>t \<in> set (store st0). set (frame_ids t) \<subseteq> F \<Longrightarrow>
   track_loop L pn mn thr maxf d fs st0 = Inr st \<Longrightarrow>
   \<forall>t \<in> set (store st). set (frame_ids t) \<subseteq> F \<union> set fs"
proof (induction fs arbitrary: st0 F)
  case Nil
  then show ?case by simp
next
  case (Cons f fs)
  from Cons.prems(3) obtain st' where s: "frame_step L pn mn thr maxf d f st0 = Inr st'"
    and r: "track_loop L pn mn thr maxf d fs st' = Inr st"
    by (auto split: sum.splits)
  have "\<forall>t \<in> set (store st). set (frame_ids t) \<subseteq> insert f F \<union> set fs"
    by (rule Cons.IH [OF wf_step [OF Cons.prems(1) s]
          step_frame_ids [OF Cons.prems(1) s Cons.prems(2)] r])
  then show ?case by auto
qed

lemma surviving_frame_ids:
  assumes "surviving_tracks L s = Inr S" and "t \<in> set S"
  shows "set (frame_ids t) \<subseteq> set [start_frame s..end_frame s]"
proof (cases "df s")
  case None
  then show ?thesis using assms by (auto simp: surviving_tracks_def split: if_splits)
next
  case (Some d)
  from assms(1) Some obtain st where
    st: "track_loop L (process_noise s) (measurement_noise s) (distance_threshold s)
           (max_frames_before_death s) (rows d) [start_frame s..end_frame s] init_state = Inr st"
    and S: "S = sorted_reverse (\<lambda>t. int (length (positions t))) (filter keep_track (registry st))"
    by (auto simp: surviving_tracks_def split: sum.splits)
  have w: "wf st" by (rule wf_loop [OF wf_init st])
  have "t \<in> set (registry st)" using assms(2) S by (simp add: sorted_reverse_def)
  then obtain a where "a \<in> set (all_tracks st)" "t = store st ! a"
    by (auto simp: registry_def)
  then have m: "t \<in> set (store st)" using w by (auto simp: wf_def)
  have "\<forall>t \<in> set (store st). set (frame_ids t) \<subseteq> {} \<union> set [start_frame s..end_frame s]"
    by (rule loop_frame_ids [OF wf_init _ st]) (simp add: init_state_def)
  then show ?thesis using m by simp
qed

lemma old_track_not_of_file8: "surviving_tracks L engine8 \<noteq> Inr [old_track]"
proof
  assume "surviving_tracks L engine8 = Inr [old_track]"
  then have "set (frame_ids old_track) \<subseteq> set [start_frame engine8..end_frame engine8]"
    by (rule surviving_frame_ids) simp
  then show False by (simp add: old_track_def engine8_def engine0_def)
qed

lemma load_file8_mid: "load_csv (reset_variables engine_mid) world_mid file8 = Inr (True, engine8)"
  by (simp add: load_csv_def reset_variables_def engine_mid_def engine0_def world_mid_def
      csv8_def rows8_def Let_def date_file8 engine8_def zero_counts_def)

text \<open>
  The loop of \<open>track_insects\<close> reaches the file dated 20240102, for which no zone is
  registered; the engine holds the track of the file before it. The file is valid, so
  there is a tracking result for it: the surviving tracks of \<open>engine8\<close>. Whatever the
  library, the loop returns with the engine and the statistics file as they were: the
  engine still holds the track of the earlier file, which is not a result for this file,
  and no line is written for it. From the fresh engine, with this file alone in the
  folder, \<open>track_insects\<close> returns without having loaded the file.
\<close>

theorem no_zone_counterexample:
  "ellipses engine_mid (get_date_from_filename file8) = None \<and>
   load_csv (reset_variables engine_mid) world_mid file8 = Inr (True, engine8) \<and>
   (\<forall>L. track_insects_files L [file8] (engine_mid, world_mid) = Inr (engine_mid, world_mid)) \<and>
   self_all_tracks engine_mid = [old_track] \<and>
   (\<forall>L. surviving_tracks L engine8 \<noteq> Inr [old_track]) \<and>
   \<not> check_already_processed world_mid file8 \<and>
   (\<forall>L. track_insects L engine0 world8 = Inr (engine0, world8)) \<and>
   self_all_tracks engine0 = [] \<and> df engine0 = None \<and> stats_csv world8 = []"
proof -
  have z: "ellipses engine_mid (get_date_from_filename file8) = None"
    by (simp add: engine_mid_def engine0_def date_file8)
  have 1: "\<forall>L. track_insects_files L [file8] (engine_mid, world_mid) = Inr (engine_mid, world_mid)"
    using z by simp
  have 2: "\<forall>L. track_insects L engine0 world8 = Inr (engine0, world8)"
    using no_zone_file8 by (simp add: track_insects_def engine0_def)
  have 3: "\<not> check_already_processed world_mid file8"
    by (simp add: check_already_processed_def world_mid_def file8_def basename_def
        stats_line_def)
  have 4: "self_all_tracks engine_mid = [old_track] \<and> self_all_tracks engine0 = [] \<and>
      df engine0 = None \<and> stats_csv world8 = []"
    by (simp add: engine_mid_def engine0_def world8_def)
  show ?thesis
    using z load_file8_mid 1 2 3 4 old_track_not_of_file8 by blast
qed

end
